theory Spec2Isabelle
  imports Main "HOL-Library.Word" "HOL-Library.Signed_Division"
begin

unbundle bit_operations_syntax

section \<open>The data model\<close>

text \<open>
  The library computes on JavaScript \<open>bigint\<close> values, which are unbounded signed
  integers: they are modelled as \<open>int\<close>. The bitwise operators \<open>&\<close>, \<open><<\<close> and
  \<open>>>\<close> on \<open>bigint\<close> act on the infinite two's complement representation, as
  \<open>AND\<close>, \<open>push_bit\<close> and \<open>drop_bit\<close> do on \<open>int\<close>. The remainder operator
  \<open>%\<close> truncates towards zero (the result takes the sign of the dividend), which is
  \<open>smod\<close>; on a zero divisor the engine raises a \<open>RangeError\<close>, and every function
  below whose parameters can lead to a zero divisor has that raise as a branch.

  The iteration count \<open>t\<close> is a JavaScript \<open>number\<close>; it is modelled as an \<open>int\<close>
  (an integral count inside the range where \<open>i++\<close> is exact). A \<open>Uint8Array\<close> is a
  list of bytes.

  An exception is a value of type \<open>error\<close>; a function that can raise returns
  \<open>error + 'a\<close>. A loop whose termination is not evident from the loop itself is a
  \<^theory_text>\<open>partial_function\<close> into \<open>option\<close>, where \<open>None\<close> stands for a
  computation that does not return.
\<close>

datatype error = RangeError | Error | TypeError | QuotaExceededError

type_synonym byte = "8 word"

type_synonym 'a result = "(error + 'a) option"

definition bindR :: "'a result \<Rightarrow> ('a \<Rightarrow> 'b result) \<Rightarrow> 'b result" where
  "bindR m f = (case m of None \<Rightarrow> None | Some (Inl e) \<Rightarrow> Some (Inl e) | Some (Inr v) \<Rightarrow> f v)"

definition returnR :: "'a \<Rightarrow> 'a result" where
  "returnR v = Some (Inr v)"

definition raiseR :: "error \<Rightarrow> 'a result" where
  "raiseR e = Some (Inl e)"

lemma bindR_mono [partial_function_mono]:
  assumes mf: "mono_option B" and mg: "\<And>y. mono_option (\<lambda>f. C y f)"
  shows "mono_option (\<lambda>f. bindR (B f) (\<lambda>y. C y f))"
proof -
  have B: "\<And>f g. fun_ord option_ord f g \<Longrightarrow> B f = None \<or> B f = B g"
    using mf unfolding monotone_def flat_ord_def by blast
  have C: "\<And>y f g. fun_ord option_ord f g \<Longrightarrow> C y f = None \<or> C y f = C y g"
    using mg unfolding monotone_def flat_ord_def by blast
  show ?thesis
    unfolding monotone_def
  proof (intro allI impI)
    fix f g :: "'a \<Rightarrow> 'b option"
    assume fg: "fun_ord option_ord f g"
    show "option_ord (bindR (B f) (\<lambda>y. C y f)) (bindR (B g) (\<lambda>y. C y g))"
    proof (cases "B f")
      case None
      then show ?thesis by (simp add: flat_ord_def bindR_def)
    next
      case (Some v)
      with B[OF fg] have eq: "B g = Some v" by simp
      show ?thesis
      proof (cases v)
        case (Inl e)
        with Some eq show ?thesis by (simp add: flat_ord_def bindR_def)
      next
        case (Inr w)
        with Some eq C[OF fg, of w] show ?thesis by (simp add: flat_ord_def bindR_def)
      qed
    qed
  qed
qed

subsection \<open>Arithmetic helpers of \<open>utils.ts\<close>\<close>

text \<open>\<open>gcd(a, b)\<close>: the Euclidean loop \<open>while (b !== 0n) [a, b] = [b, a % b]\<close>.\<close>

function gcd_bigint :: "int \<Rightarrow> int \<Rightarrow> int" where
  "gcd_bigint a b = (if b \<noteq> 0 then gcd_bigint b (a smod b) else a)"
  by pat_completeness auto
termination
  apply (relation "measure (\<lambda>(a, b). nat \<bar>b\<bar>)")
   apply simp
  subgoal for a b
    using smod_int_range [of a b] smod_int_range [of b a] by auto
  done

declare gcd_bigint.simps [simp del]

text \<open>
  \<open>x.toString(radix)\<close> of a \<open>bigint\<close> is a builtin: the digits of the magnitude, most
  significant first, without leading zeros, after a minus sign for a negative value.
  The library calls it with the radices 2 and 16 only.
\<close>

definition digitChar :: "nat \<Rightarrow> char" where
  "digitChar d = (if d < 10 then char_of (48 + d) else char_of (87 + d))"

function natToString :: "nat \<Rightarrow> nat \<Rightarrow> string" where
  "natToString radix m =
     (if radix < 2 \<or> m < radix then [digitChar m]
      else natToString radix (m div radix) @ [digitChar (m mod radix)])"
  by pat_completeness auto
termination
  by (relation "measure (\<lambda>(radix, m). m)") auto

declare natToString.simps [simp del]

definition toString :: "int \<Rightarrow> nat \<Rightarrow> string" where
  "toString x radix =
     (if x < 0 then CHR ''-'' # natToString radix (nat (- x)) else natToString radix (nat x))"

text \<open>\<open>bigintByteLength(x)\<close>: \<open>Math.ceil(x.toString(16).length / 2)\<close>, and 1 for zero.\<close>

definition bigintByteLength :: "int \<Rightarrow> nat" where
  "bigintByteLength x = (if x = 0 then 1 else (length (toString x 16) + 1) div 2)"

text \<open>
  \<open>Math.clz32(v)\<close> is a builtin: the number of leading zero bits of \<open>v\<close> read as an
  unsigned 32-bit integer.
\<close>

definition clz32 :: "nat \<Rightarrow> nat" where
  "clz32 v = (let w = v mod 2 ^ 32 in if w = 0 then 32 else 32 - length (natToString 2 w))"

definition bigintBitLength :: "int \<Rightarrow> nat" where
  "bigintBitLength x =
     (if x = 0 then 0
      else let bytes = bigintByteLength x;
               shift = (bytes - 1) * 8;
               msb = nat (drop_bit shift x AND 255)
           in (bytes - 1) * 8 + (32 - clz32 msb))"

subsection \<open>The Montgomery reducer\<close>

text \<open>
  The fields of the class \<open>MontgomeryReducer\<close>. The field names carry a prefix, since a
  record field is a constant of the theory and the source's \<open>n\<close> and \<open>r\<close> are wanted as
  variables.
\<close>

record MontgomeryReducer =
  mont_n :: int
  mont_rBits :: nat
  mont_rMask :: int
  mont_nPrime :: int
  mont_r :: int

text \<open>
  \<open>computeNPrime\<close>: the loop \<open>nInv = (nInv * (2n - n * nInv)) & rMask\<close>, run
  \<open>rBits\<close> times from \<open>nInv = 1\<close>, then \<open>(r - nInv) & rMask\<close>.
\<close>

fun computeNPrime_loop :: "int \<Rightarrow> int \<Rightarrow> nat \<Rightarrow> int \<Rightarrow> int" where
  "computeNPrime_loop n rMask 0 nInv = nInv"
| "computeNPrime_loop n rMask (Suc k) nInv =
     computeNPrime_loop n rMask k ((nInv * (2 - n * nInv)) AND rMask)"

definition computeNPrime :: "int \<Rightarrow> nat \<Rightarrow> int \<Rightarrow> int \<Rightarrow> int" where
  "computeNPrime n rBits rMask r = (r - computeNPrime_loop n rMask rBits 1) AND rMask"

text \<open>
  The constructor. It has no \<open>throw\<close> and applies only operations that cannot raise,
  whatever \<open>n\<close> is: its result is always a reducer.
\<close>

definition MontgomeryReducer_new :: "int \<Rightarrow> error + MontgomeryReducer" where
  "MontgomeryReducer_new n =
     (let rBits0 = length (toString n 2);
          rBits = (if push_bit rBits0 1 \<le> n then rBits0 + 1 else rBits0);
          r = push_bit rBits 1;
          rMask = r - 1
      in Inr \<lparr> mont_n = n, mont_rBits = rBits, mont_rMask = rMask,
               mont_nPrime = computeNPrime n rBits rMask r, mont_r = r \<rparr>)"

text \<open>
  \<open>toMontgomery\<close> divides by the modulus; a reducer for \<open>n = 0\<close> would raise here. The
  callers below construct reducers for odd moduli only.
\<close>

definition toMontgomery :: "MontgomeryReducer \<Rightarrow> int \<Rightarrow> int" where
  "toMontgomery m x = (x * mont_r m) smod mont_n m"

definition reduce :: "MontgomeryReducer \<Rightarrow> int \<Rightarrow> int" where
  "reduce m x =
     (let mm = ((x AND mont_rMask m) * mont_nPrime m) AND mont_rMask m;
          t = drop_bit (mont_rBits m) (x + mm * mont_n m)
      in if t \<ge> mont_n m then t - mont_n m else t)"

definition fromMontgomery :: "MontgomeryReducer \<Rightarrow> int \<Rightarrow> int" where
  "fromMontgomery m x = reduce m x"

definition multiply :: "MontgomeryReducer \<Rightarrow> int \<Rightarrow> int \<Rightarrow> int" where
  "multiply m a b = reduce m (a * b)"

definition square :: "MontgomeryReducer \<Rightarrow> int \<Rightarrow> int" where
  "square m a = reduce m (a * a)"

subsection \<open>Byte encodings of \<open>utils.ts\<close>\<close>

text \<open>
  \<open>u64be(x)\<close>: raises outside the unsigned 64-bit range; otherwise fills the eight
  bytes from index 7 down to 0 with \<open>x & 0xff\<close>, shifting \<open>x\<close> right by 8 each time.
\<close>

fun u64be_loop :: "nat \<Rightarrow> int \<Rightarrow> byte list \<Rightarrow> byte list" where
  "u64be_loop 0 x b = b"
| "u64be_loop (Suc i) x b = u64be_loop i (drop_bit 8 x) (b[i := word_of_int (x AND 255)])"

definition u64be :: "int \<Rightarrow> error + byte list" where
  "u64be x =
     (if x < 0 \<or> x > 18446744073709551615 then Inl RangeError
      else Inr (u64be_loop 8 x (replicate 8 0)))"

text \<open>\<open>concatBytes(...parts)\<close> copies the parts one after the other into a fresh array.\<close>

definition concatBytes :: "byte list list \<Rightarrow> byte list" where
  "concatBytes parts = concat parts"

text \<open>
  \<open>Buffer.from(hex, "hex")\<close> is a builtin: it decodes pairs of hexadecimal digits and
  stops at the first pair that is not one (or at a single trailing character).
\<close>

definition hexVal :: "char \<Rightarrow> nat option" where
  "hexVal c =
     (let k = of_char c :: nat in
      if 48 \<le> k \<and> k \<le> 57 then Some (k - 48)
      else if 97 \<le> k \<and> k \<le> 102 then Some (k - 87)
      else if 65 \<le> k \<and> k \<le> 70 then Some (k - 55)
      else None)"

fun hexDecode :: "string \<Rightarrow> byte list" where
  "hexDecode (a # b # cs) =
     (case hexVal a of None \<Rightarrow> []
      | Some hi \<Rightarrow> (case hexVal b of None \<Rightarrow> []
          | Some lo \<Rightarrow> word_of_nat (16 * hi + lo) # hexDecode cs))"
| "hexDecode cs = []"

text \<open>\<open>bigintToBytes(x)\<close>: one zero byte for 0, else the hexadecimal digits padded to
  an even count and decoded.\<close>

definition bigintToBytes :: "int \<Rightarrow> byte list" where
  "bigintToBytes x =
     (if x = 0 then [0]
      else let hex = toString x 16;
               hex' = (if length hex mod 2 = 1 then CHR ''0'' # hex else hex)
           in hexDecode hex')"

definition bigintToFixedBytes :: "int \<Rightarrow> nat \<Rightarrow> error + byte list" where
  "bigintToFixedBytes x len =
     (let bytes = bigintToBytes x in
      if length bytes > len then Inl RangeError
      else if length bytes = len then Inr bytes
      else Inr (replicate (len - length bytes) 0 @ bytes))"

text \<open>
  \<open>bytesToBigint(bytes)\<close>: 0 for the empty array, else \<open>BigInt("0x" + hex)\<close> of the
  two-digit hexadecimal rendering of the bytes (\<open>Buffer.toString("hex")\<close>, a builtin,
  like the parsing of the literal).
\<close>

definition hexEncode :: "byte list \<Rightarrow> string" where
  "hexEncode bytes = concat (map (\<lambda>b. [digitChar (unat b div 16), digitChar (unat b mod 16)]) bytes)"

definition parseHex :: "string \<Rightarrow> int" where
  "parseHex s = foldl (\<lambda>acc c. acc * 16 + int (case hexVal c of None \<Rightarrow> 0 | Some v \<Rightarrow> v)) 0 s"

definition bytesToBigint :: "byte list \<Rightarrow> int" where
  "bytesToBigint bytes = (if length bytes = 0 then 0 else parseHex (hexEncode bytes))"

subsection \<open>Modular exponentiation of \<open>utils.ts\<close>\<close>

text \<open>The remainder where the divisor may be zero: \<open>a % b\<close> raises a \<open>RangeError\<close>.\<close>

definition rem_bigint :: "int \<Rightarrow> int \<Rightarrow> int result" where
  "rem_bigint a b = (if b = 0 then raiseR RangeError else returnR (a smod b))"

definition MODPOW_WINDOW_THRESHOLD_BITS :: nat where
  "MODPOW_WINDOW_THRESHOLD_BITS = 64"

definition MODPOW_MONTGOMERY_THRESHOLD_N_BITS :: nat where
  "MODPOW_MONTGOMERY_THRESHOLD_N_BITS = 1024"

definition MODPOW_MONTGOMERY_THRESHOLD_EXP_BITS :: nat where
  "MODPOW_MONTGOMERY_THRESHOLD_EXP_BITS = 128"

text \<open>
  \<open>getMontgomeryReducerCached(n)\<close> keeps up to ten reducers in a map keyed by the
  modulus. A reducer is an immutable function of its modulus, so the cache only saves
  the construction: the model constructs the reducer.
\<close>

definition getMontgomeryReducerCached :: "int \<Rightarrow> error + MontgomeryReducer" where
  "getMontgomeryReducerCached n = MontgomeryReducer_new n"

definition shouldUseMontgomeryForModpow :: "int \<Rightarrow> nat \<Rightarrow> bool" where
  "shouldUseMontgomeryForModpow n expBits =
     (if n AND 1 = 0 then False
      else if expBits < MODPOW_MONTGOMERY_THRESHOLD_EXP_BITS then False
      else bigintByteLength n * 8 \<ge> MODPOW_MONTGOMERY_THRESHOLD_N_BITS)"

definition selectWindowSize :: "nat \<Rightarrow> nat" where
  "selectWindowSize expBits =
     (if expBits \<le> 32 then 1
      else if expBits \<le> 96 then 3
      else if expBits \<le> 384 then 4
      else if expBits \<le> 1024 then 5
      else 6)"

text \<open>\<open>modpowClassic\<close>: right-to-left square-and-multiply, the loop \<open>while (y > 0n)\<close>.\<close>

function modpowClassic_loop :: "int \<Rightarrow> int \<Rightarrow> int \<Rightarrow> int \<Rightarrow> int" where
  "modpowClassic_loop md res x y =
     (if y > 0 then
        let res' = (if y AND 1 \<noteq> 0 then (res * x) smod md else res);
            y' = drop_bit 1 y;
            x' = (if y' > 0 then (x * x) smod md else x)
        in modpowClassic_loop md res' x' y'
      else res)"
  by pat_completeness auto
termination
  by (relation "measure (\<lambda>(md, res, x, y). nat y)") (auto simp: drop_bit_eq_div)

declare modpowClassic_loop.simps [simp del]

definition modpowClassic :: "int \<Rightarrow> int \<Rightarrow> int \<Rightarrow> int" where
  "modpowClassic base exp md = modpowClassic_loop md 1 base exp"

text \<open>
  \<open>modpowWindowedCore\<close>. The table is a sparse array: only the odd slots are written,
  and reading an unwritten slot yields \<open>undefined\<close>, on which the multiplication raises
  a \<open>TypeError\<close>. The table size \<open>1 << window\<close> is \<open>2 ^ window\<close> for the window sizes 1
  to 6 that \<open>selectWindowSize\<close> returns.
\<close>

function table_loop ::
  "(int \<Rightarrow> int \<Rightarrow> int) \<Rightarrow> int \<Rightarrow> nat \<Rightarrow> nat \<Rightarrow> (nat \<rightharpoonup> int) \<Rightarrow> error + (nat \<rightharpoonup> int)" where
  "table_loop mul base2 tableSize i table =
     (if i < tableSize then
        (case table (i - 2) of
           None \<Rightarrow> Inl TypeError
         | Some v \<Rightarrow> table_loop mul base2 tableSize (i + 2) (table(i \<mapsto> mul v base2)))
      else Inr table)"
  by pat_completeness auto
termination
  by (relation "measure (\<lambda>(mul, base2, tableSize, i, table). tableSize - i)") auto

declare table_loop.simps [simp del]

definition buildTable ::
  "int \<Rightarrow> nat \<Rightarrow> (int \<Rightarrow> int) \<Rightarrow> (int \<Rightarrow> int \<Rightarrow> int) \<Rightarrow> error + (nat \<rightharpoonup> int)" where
  "buildTable base window sq mul =
     (let tableSize = 2 ^ window;
          table = Map.empty(1 \<mapsto> base)
      in if tableSize > 2 then table_loop mul (sq base) tableSize 3 table else Inr table)"

text \<open>\<open>while (bits.charCodeAt(j - 1) === 48) j--\<close>; \<open>charCodeAt\<close> outside the string
  is \<open>NaN\<close>, which ends the loop.\<close>

fun trimWindow :: "string \<Rightarrow> nat \<Rightarrow> nat" where
  "trimWindow bits 0 = 0"
| "trimWindow bits (Suc j) =
     (if j < length bits \<and> bits ! j = CHR ''0'' then trimWindow bits j else Suc j)"

text \<open>\<open>for (k = i; k < j; k++) win = (win << 1) | (bits.charCodeAt(k) === 49 ? 1 : 0)\<close>\<close>

definition windowValue :: "string \<Rightarrow> nat \<Rightarrow> nat \<Rightarrow> nat" where
  "windowValue bits i j =
     foldl (\<lambda>win k. 2 * win + (if k < length bits \<and> bits ! k = CHR ''1'' then 1 else 0)) 0 [i..<j]"

partial_function (option) window_loop ::
  "string \<Rightarrow> nat \<Rightarrow> (int \<Rightarrow> int) \<Rightarrow> (int \<Rightarrow> int \<Rightarrow> int) \<Rightarrow> (nat \<rightharpoonup> int) \<Rightarrow> nat \<Rightarrow> int
     \<Rightarrow> int result" where
  "window_loop bits window sq mul table i res =
     (if i < length bits then
        (if bits ! i = CHR ''0'' then window_loop bits window sq mul table (i + 1) (sq res)
         else
           let j = trimWindow bits (min (i + window) (length bits));
               win = windowValue bits i j;
               res' = (sq ^^ (j - i)) res
           in (case table win of
                 None \<Rightarrow> raiseR TypeError
               | Some tv \<Rightarrow> window_loop bits window sq mul table j (mul res' tv)))
      else returnR res)"

declare window_loop.simps [code]

definition modpowWindowedCore ::
  "int \<Rightarrow> string \<Rightarrow> nat \<Rightarrow> (int \<Rightarrow> int) \<Rightarrow> (int \<Rightarrow> int \<Rightarrow> int) \<Rightarrow> int \<Rightarrow> int result" where
  "modpowWindowedCore base bits window sq mul one =
     (case buildTable base window sq mul of
        Inl e \<Rightarrow> raiseR e
      | Inr table \<Rightarrow> window_loop bits window sq mul table 0 one)"

text \<open>
  \<open>modpow(x, y, p)\<close>. The first remainder on each path raises for \<open>p = 0\<close>; after it
  the modulus is known to be non-zero.
\<close>

definition modpow :: "int \<Rightarrow> int \<Rightarrow> int \<Rightarrow> int result" where
  "modpow x y p =
     (if p = 1 then returnR 0
      else if y = 0 then rem_bigint 1 p
      else if y = 1 then rem_bigint x p
      else if y = 2 then bindR (rem_bigint x p) (\<lambda>v. rem_bigint (v * v) p)
      else bindR (rem_bigint x p) (\<lambda>base.
        let expBits = bigintBitLength y in
        if expBits \<le> MODPOW_WINDOW_THRESHOLD_BITS then returnR (modpowClassic base y p)
        else
          let window = selectWindowSize expBits;
              bits = toString y 2
          in if shouldUseMontgomeryForModpow p expBits then
               (case getMontgomeryReducerCached p of
                  Inl e \<Rightarrow> raiseR e
                | Inr mont \<Rightarrow>
                    let baseMont = toMontgomery mont base;
                        oneMont = toMontgomery mont 1
                    in bindR (modpowWindowedCore baseMont bits window
                                (\<lambda>a. square mont a) (\<lambda>a b. multiply mont a b) oneMont)
                         (\<lambda>resultMont. returnR (fromMontgomery mont resultMont)))
             else modpowWindowedCore base bits window
                    (\<lambda>a. (a * a) smod p) (\<lambda>a b. (a * b) smod p) 1))"

subsection \<open>\<open>prime.ts\<close>: the small primes and the wheel\<close>

text \<open>
  \<open>SMALL_PRIMES\<close>: the sieve of Eratosthenes up to 1000 over a byte array. The inner
  loop \<open>for (j = i * i; j <= limit; j += i)\<close> runs with a step \<open>i \<ge> 2\<close>; the test
  \<open>0 < i\<close> below only makes the recursion well-founded.
\<close>

function sieve_mark :: "nat \<Rightarrow> nat \<Rightarrow> nat \<Rightarrow> byte list \<Rightarrow> byte list" where
  "sieve_mark limit i j sieve =
     (if j \<le> limit \<and> 0 < i then sieve_mark limit i (j + i) (sieve[j := 1]) else sieve)"
  by pat_completeness auto
termination
  by (relation "measure (\<lambda>(limit, i, j, sieve). Suc limit - j)") auto

declare sieve_mark.simps [simp del]

function sieve_loop :: "nat \<Rightarrow> nat \<Rightarrow> byte list \<Rightarrow> int list \<Rightarrow> int list" where
  "sieve_loop limit i sieve primes =
     (if i \<le> limit then
        (if sieve ! i = 0
         then sieve_loop limit (i + 1) (sieve_mark limit i (i * i) sieve) (primes @ [int i])
         else sieve_loop limit (i + 1) sieve primes)
      else primes)"
  by pat_completeness auto
termination
  by (relation "measure (\<lambda>(limit, i, sieve, primes). Suc limit - i)") auto

declare sieve_loop.simps [simp del]

definition SMALL_PRIMES :: "int list" where
  "SMALL_PRIMES = sieve_loop 1000 2 (replicate 1001 0) []"

text \<open>
  \<open>PRIME_WHEEL\<close>: the residues below 210 that are odd and divisible by none of 3, 5, 7,
  and the circular differences between consecutive residues.
\<close>

definition wheel_mod :: int where
  "wheel_mod = 210"

definition wheel_residues :: "int list" where
  "wheel_residues =
     filter (\<lambda>r. r smod 3 \<noteq> 0 \<and> r smod 5 \<noteq> 0 \<and> r smod 7 \<noteq> 0)
       (map (\<lambda>k. 1 + 2 * int k) [0..<105])"

definition wheel_increments :: "int list" where
  "wheel_increments =
     map (\<lambda>i. (wheel_residues ! ((i + 1) mod length wheel_residues) - wheel_residues ! i + wheel_mod)
                 smod wheel_mod)
       [0..<length wheel_residues]"

text \<open>\<open>alignToWheel(p)\<close>: the first residue not below \<open>p % 210\<close>, with its index.\<close>

fun alignToWheel_scan :: "int \<Rightarrow> int \<Rightarrow> int list \<Rightarrow> nat \<Rightarrow> int \<times> nat" where
  "alignToWheel_scan p m [] i = (p + (wheel_mod - m + wheel_residues ! 0), 0)"
| "alignToWheel_scan p m (r # rs) i =
     (if m \<le> r then (p + (r - m), i) else alignToWheel_scan p m rs (i + 1))"

definition alignToWheel :: "int \<Rightarrow> int \<times> nat" where
  "alignToWheel p = alignToWheel_scan p (p smod wheel_mod) wheel_residues 0"

subsection \<open>\<open>prime.ts\<close>: Miller-Rabin\<close>

definition DETERMINISTIC_WITNESSES :: "int list" where
  "DETERMINISTIC_WITNESSES = [2, 3, 5, 7, 11, 13, 17, 19, 23, 29, 31, 37]"

text \<open>The loop \<open>for (r = 1; r < s; r++)\<close> of \<open>millerRabinRound\<close>, by its iteration count.\<close>

fun millerRabin_loop :: "int \<Rightarrow> nat \<Rightarrow> int \<Rightarrow> bool" where
  "millerRabin_loop n 0 x = False"
| "millerRabin_loop n (Suc k) x =
     (let x' = (x * x) smod n in
      if x' = n - 1 then True
      else if x' = 1 then False
      else millerRabin_loop n k x')"

definition millerRabinRound :: "int \<Rightarrow> int \<Rightarrow> nat \<Rightarrow> int \<Rightarrow> bool result" where
  "millerRabinRound n d s a =
     bindR (modpow a d n) (\<lambda>x.
       if x = 1 \<or> x = n - 1 then returnR True
       else returnR (millerRabin_loop n (s - 1) x))"

text \<open>
  The external random source. \<open>crypto.getRandomValues(buf)\<close> fills the buffer with
  bytes that the program does not control: the source's state is the sequence of bytes
  it will deliver, and a call takes the first \<open>len\<close> of them. Web Crypto refuses a
  buffer of more than 65536 bytes: the call then raises a \<open>QuotaExceededError\<close> and
  delivers nothing.
\<close>

type_synonym rng = "nat \<Rightarrow> byte"

definition getRandomValues :: "nat \<Rightarrow> rng \<Rightarrow> error + byte list \<times> rng" where
  "getRandomValues len g =
     (if len > 65536 then Inl QuotaExceededError
      else Inr (map g [0..<len], (\<lambda>i. g (i + len))))"

text \<open>The trial division loop: \<open>Some b\<close> when it returns \<open>b\<close>, \<open>None\<close> when it falls
  through.\<close>

fun trialDivision :: "int \<Rightarrow> int list \<Rightarrow> bool option" where
  "trialDivision n [] = None"
| "trialDivision n (p # ps) =
     (if n = p then Some True
      else if n smod p = 0 then Some False
      else trialDivision n ps)"

text \<open>\<open>while ((d & 1n) === 0n) { d >>= 1n; s++ }\<close>; it would not end on \<open>d = 0\<close>.\<close>

partial_function (option) decompose :: "int \<Rightarrow> nat \<Rightarrow> (int \<times> nat) option" where
  "decompose d s = (if d AND 1 = 0 then decompose (drop_bit 1 d) (s + 1) else Some (d, s))"

declare decompose.simps [code]

text \<open>The loop over the deterministic witnesses, with its \<open>break\<close>.\<close>

fun deterministic_loop :: "int \<Rightarrow> int \<Rightarrow> nat \<Rightarrow> int list \<Rightarrow> bool result" where
  "deterministic_loop n d s [] = returnR True"
| "deterministic_loop n d s (a # as) =
     (if a \<ge> n - 1 then returnR True
      else bindR (millerRabinRound n d s a) (\<lambda>ok.
        if \<not> ok then returnR False else deterministic_loop n d s as))"

text \<open>
  The loop over the random witnesses: round \<open>i\<close> reads \<open>nBytes\<close> bytes at offset
  \<open>i * nBytes\<close> as a big-endian integer \<open>r\<close> and tests \<open>a = 2 + r % (n - 4)\<close>.
\<close>

function witness_bytes :: "byte list \<Rightarrow> nat \<Rightarrow> nat \<Rightarrow> nat \<Rightarrow> int \<Rightarrow> int" where
  "witness_bytes rand off nBytes j r =
     (if j < nBytes then witness_bytes rand off nBytes (j + 1) (push_bit 8 r + uint (rand ! (off + j)))
      else r)"
  by pat_completeness auto
termination
  by (relation "measure (\<lambda>(rand, off, nBytes, j, r). nBytes - j)") auto

declare witness_bytes.simps [simp del]

function random_loop :: "int \<Rightarrow> int \<Rightarrow> nat \<Rightarrow> byte list \<Rightarrow> nat \<Rightarrow> nat \<Rightarrow> nat \<Rightarrow> bool result" where
  "random_loop n d s rand nBytes k i =
     (if i < k then
        let r = witness_bytes rand (i * nBytes) nBytes 0 0;
            a = 2 + r smod (n - 4)
        in bindR (millerRabinRound n d s a) (\<lambda>ok.
             if \<not> ok then returnR False else random_loop n d s rand nBytes k (i + 1))
      else returnR True)"
  by pat_completeness auto
termination
  by (relation "measure (\<lambda>(n, d, s, rand, nBytes, k, i). k - i)") auto

declare random_loop.simps [simp del]

text \<open>
  \<open>isPrime(n, {rounds})\<close>; \<open>k\<close> is the number of rounds (32 when the option is absent),
  a count. The result carries the state of the random source after the call. Above the
  deterministic bound the bytes of all \<open>k\<close> witnesses are drawn in one call, which
  raises when \<open>nBytes * k\<close> exceeds the quota of the random source.
\<close>

definition isPrime :: "int \<Rightarrow> nat \<Rightarrow> rng \<Rightarrow> (bool \<times> rng) result" where
  "isPrime n k g =
     (if n < 2 then returnR (False, g)
      else if n = 2 \<or> n = 3 then returnR (True, g)
      else if n AND 1 = 0 then returnR (False, g)
      else case trialDivision n SMALL_PRIMES of
        Some b \<Rightarrow> returnR (b, g)
      | None \<Rightarrow>
         (case decompose (n - 1) 0 of
            None \<Rightarrow> None
          | Some (d, s) \<Rightarrow>
              if n < 318665857834031151167461
              then bindR (deterministic_loop n d s DETERMINISTIC_WITNESSES) (\<lambda>b. returnR (b, g))
              else
                let nBytes = bigintByteLength n in
                case getRandomValues (nBytes * k) g of
                  Inl e \<Rightarrow> raiseR e
                | Inr (rand, g') \<Rightarrow>
                    bindR (random_loop n d s rand nBytes k 0) (\<lambda>b. returnR (b, g'))))"

text \<open>
  \<open>nextPrime(n, options)\<close>. The walk \<open>while (true)\<close> leaves only through an accepted
  candidate. An index outside the increments would read \<open>undefined\<close>, on which
  \<open>BigInt\<close> raises a \<open>TypeError\<close>.
\<close>

partial_function (option) nextPrime_loop :: "nat \<Rightarrow> int \<Rightarrow> nat \<Rightarrow> rng \<Rightarrow> (int \<times> rng) result" where
  "nextPrime_loop k p idx g =
     bindR (isPrime p k g) (\<lambda>(ok, g').
       if ok then returnR (p, g')
       else if idx < length wheel_increments
         then nextPrime_loop k (p + wheel_increments ! idx) ((idx + 1) mod length wheel_increments) g'
         else raiseR TypeError)"

declare nextPrime_loop.simps [code]

definition nextPrime :: "int \<Rightarrow> nat \<Rightarrow> rng \<Rightarrow> (int \<times> rng) result" where
  "nextPrime n k g =
     (if n \<le> 2 then returnR (2, g)
      else if n = 3 then returnR (3, g)
      else if n \<le> 5 then returnR (5, g)
      else if n \<le> 7 then returnR (7, g)
      else
        let (p, idx) = alignToWheel n in
        if p > n \<and> n \<le> 2 then returnR (2, g)
        else if p > n \<and> n \<le> 3 then returnR (3, g)
        else if p > n \<and> n \<le> 5 then returnR (5, g)
        else if p > n \<and> n \<le> 7 then returnR (7, g)
        else nextPrime_loop k p idx g)"

subsection \<open>\<open>vdf.ts\<close>\<close>

text \<open>The interfaces \<open>VDFOutput\<close> and \<open>VDFProof\<close> (which extends it); the field names
  carry a prefix for the same reason as the reducer's.\<close>

record VDFOutput =
  vdf_x :: int
  vdf_h :: int
  vdf_t :: int
  vdf_n :: int

record VDFProof = VDFOutput +
  vdf_pi :: int
  vdf_l :: int
  vdf_nonce :: "byte list"

definition MONTGOMERY_THRESHOLD_T :: int where
  "MONTGOMERY_THRESHOLD_T = 5000"

definition MONTGOMERY_THRESHOLD_N_BITS :: nat where
  "MONTGOMERY_THRESHOLD_N_BITS = 1024"

text \<open>\<open>new TextEncoder().encode("wesolowski-v1")\<close>: the ASCII codes of the characters.\<close>

definition CHALLENGE_TAG :: "byte list" where
  "CHALLENGE_TAG = map (\<lambda>c. word_of_nat (of_char c)) ''wesolowski-v1''"

text \<open>\<open>getMontgomeryReducer(n)\<close>: a second cache of the same kind, modelled the same way.\<close>

definition getMontgomeryReducer :: "int \<Rightarrow> error + MontgomeryReducer" where
  "getMontgomeryReducer n = MontgomeryReducer_new n"

definition shouldUseMontgomery :: "int \<Rightarrow> int \<Rightarrow> bool" where
  "shouldUseMontgomery n t =
     (if t < MONTGOMERY_THRESHOLD_T then False
      else if n AND 1 = 0 then False
      else bigintByteLength n * 8 \<ge> MONTGOMERY_THRESHOLD_N_BITS)"

text \<open>The two squaring loops of \<open>evaluate\<close>, by their iteration count.\<close>

fun evaluate_loop_mont :: "MontgomeryReducer \<Rightarrow> nat \<Rightarrow> int \<Rightarrow> int" where
  "evaluate_loop_mont mont 0 h = h"
| "evaluate_loop_mont mont (Suc k) h = evaluate_loop_mont mont k (square mont h)"

fun evaluate_loop :: "int \<Rightarrow> nat \<Rightarrow> int \<Rightarrow> int" where
  "evaluate_loop n 0 h = h"
| "evaluate_loop n (Suc k) h = evaluate_loop n k ((h * h) smod n)"

definition evaluate :: "int \<Rightarrow> int \<Rightarrow> int \<Rightarrow> error + VDFOutput" where
  "evaluate x n t =
     (if x \<le> 0 \<or> x \<ge> n then Inl RangeError
      else if gcd_bigint x n \<noteq> 1 then Inl Error
      else if t \<le> 0 then Inl RangeError
      else if shouldUseMontgomery n t then
        (case getMontgomeryReducer n of
           Inl e \<Rightarrow> Inl e
         | Inr mont \<Rightarrow>
             let h = evaluate_loop_mont mont (nat t) (toMontgomery mont x)
             in Inr \<lparr> vdf_x = x, vdf_h = fromMontgomery mont h, vdf_t = t, vdf_n = n \<rparr>)
      else Inr \<lparr> vdf_x = x, vdf_h = evaluate_loop n (nat t) x, vdf_t = t, vdf_n = n \<rparr>)"

text \<open>
  \<open>deriveChallenge(output, nonce)\<close>. The hash primitive is external: \<open>sha512\<close> is a
  parameter, any function from the payload to the digest bytes. \<open>nextPrime\<close> is called
  without options, so with 32 rounds.
\<close>

definition challenge_payload :: "VDFOutput \<Rightarrow> byte list \<Rightarrow> error + byte list" where
  "challenge_payload output nonce =
     (let nLen = bigintByteLength (vdf_n output) in
      case bigintToFixedBytes (vdf_x output) nLen of Inl e \<Rightarrow> Inl e | Inr bx \<Rightarrow>
      case bigintToFixedBytes (vdf_h output) nLen of Inl e \<Rightarrow> Inl e | Inr bh \<Rightarrow>
      case u64be (vdf_t output) of Inl e \<Rightarrow> Inl e | Inr bt \<Rightarrow>
      case bigintToFixedBytes (vdf_n output) nLen of Inl e \<Rightarrow> Inl e | Inr bn \<Rightarrow>
        Inr (concatBytes [CHALLENGE_TAG, bx, bh, bt, bn, nonce]))"

definition deriveChallenge ::
  "(byte list \<Rightarrow> byte list) \<Rightarrow> VDFOutput \<Rightarrow> byte list \<Rightarrow> rng \<Rightarrow> (int \<times> rng) result" where
  "deriveChallenge sha512 output nonce g =
     (if length nonce \<noteq> 32 then raiseR RangeError
      else case challenge_payload output nonce of
        Inl e \<Rightarrow> raiseR e
      | Inr payload \<Rightarrow> nextPrime (bytesToBigint (sha512 payload)) 32 g)"

text \<open>
  \<open>prove(output, l)\<close>: the state of each loop is the pair \<open>(pi, r)\<close>. On the plain path
  the first remainder raises for \<open>n = 0\<close>.
\<close>

fun prove_loop_mont :: "MontgomeryReducer \<Rightarrow> int \<Rightarrow> int \<Rightarrow> nat \<Rightarrow> int \<times> int \<Rightarrow> int \<times> int" where
  "prove_loop_mont mont xMont l 0 (pi, r) = (pi, r)"
| "prove_loop_mont mont xMont l (Suc k) (pi, r) =
     (let pi' = square mont pi;
          r2 = push_bit 1 r
      in if r2 \<ge> l then prove_loop_mont mont xMont l k (multiply mont pi' xMont, r2 - l)
         else prove_loop_mont mont xMont l k (pi', r2))"

fun prove_loop :: "int \<Rightarrow> int \<Rightarrow> int \<Rightarrow> nat \<Rightarrow> int \<times> int \<Rightarrow> int \<times> int" where
  "prove_loop n x l 0 (pi, r) = (pi, r)"
| "prove_loop n x l (Suc k) (pi, r) =
     (let pi' = (pi * pi) smod n;
          r2 = push_bit 1 r
      in if r2 \<ge> l then prove_loop n x l k ((pi' * x) smod n, r2 - l)
         else prove_loop n x l k (pi', r2))"

definition prove :: "VDFOutput \<Rightarrow> int \<Rightarrow> error + int" where
  "prove output l =
     (let x = vdf_x output; t = vdf_t output; n = vdf_n output in
      if shouldUseMontgomery n t then
        (case getMontgomeryReducer n of
           Inl e \<Rightarrow> Inl e
         | Inr mont \<Rightarrow>
             let xMont = toMontgomery mont x;
                 (pi, r) = prove_loop_mont mont xMont l (nat t) (toMontgomery mont 1, 1)
             in Inr (fromMontgomery mont pi))
      else if 0 < t \<and> n = 0 then Inl RangeError
      else Inr (fst (prove_loop n x l (nat t) (1, 1))))"

text \<open>\<open>generateProof(output, nonce?)\<close>: an absent nonce is drawn from the random
  source.\<close>

definition generateProof ::
  "(byte list \<Rightarrow> byte list) \<Rightarrow> VDFOutput \<Rightarrow> byte list option \<Rightarrow> rng \<Rightarrow> (VDFProof \<times> rng) result" where
  "generateProof sha512 output nonce_opt g =
     (case (case nonce_opt of None \<Rightarrow> getRandomValues 32 g | Some nonce \<Rightarrow> Inr (nonce, g)) of
        Inl e \<Rightarrow> raiseR e
      | Inr (nonce, g1) \<Rightarrow>
          bindR (deriveChallenge sha512 output nonce g1) (\<lambda>(l, g2).
            case prove output l of
              Inl e \<Rightarrow> raiseR e
            | Inr pi \<Rightarrow>
                returnR (VDFOutput.extend output
                           (VDFProof.fields pi l nonce), g2)))"

text \<open>\<open>verify(proof)\<close>; \<open>isPrime\<close> is called without options, so with 32 rounds.\<close>

definition verify :: "VDFProof \<Rightarrow> rng \<Rightarrow> (bool \<times> rng) result" where
  "verify proof g =
     (let x = vdf_x proof; h = vdf_h proof; t = vdf_t proof; n = vdf_n proof;
          pi = vdf_pi proof; l = vdf_l proof in
      if pi \<le> 0 \<or> pi \<ge> n then returnR (False, g)
      else if x \<le> 0 \<or> x \<ge> n then returnR (False, g)
      else if gcd_bigint x n \<noteq> 1 then returnR (False, g)
      else if l \<le> 2 then returnR (False, g)
      else bindR (isPrime l 32 g) (\<lambda>(ok, g').
        if \<not> ok then returnR (False, g')
        else bindR (modpow 2 t l) (\<lambda>r.
             bindR (modpow pi l n) (\<lambda>a.
             bindR (modpow x r n) (\<lambda>b.
               returnR ((a * b) smod n = h, g'))))))"

text \<open>The composition \<open>verify(generateProof(evaluate(x, {n, t})))\<close>.\<close>

definition roundtrip ::
  "(byte list \<Rightarrow> byte list) \<Rightarrow> int \<Rightarrow> int \<Rightarrow> int \<Rightarrow> byte list option \<Rightarrow> rng \<Rightarrow> bool result" where
  "roundtrip sha512 x n t nonce_opt g =
     (case evaluate x n t of
        Inl e \<Rightarrow> raiseR e
      | Inr output \<Rightarrow>
          bindR (generateProof sha512 output nonce_opt g) (\<lambda>(proof, g1).
          bindR (verify proof g1) (\<lambda>(ok, g2). returnR ok)))"

section \<open>Notions used in the statements and proofs\<close>

text \<open>A reducer as the constructor builds it for an odd modulus above 1.\<close>

definition mont_inv :: "MontgomeryReducer \<Rightarrow> bool" where
  "mont_inv m \<longleftrightarrow>
     odd (mont_n m) \<and> 1 < mont_n m \<and> mont_r m = 2 ^ mont_rBits m \<and>
     mont_rMask m = 2 ^ mont_rBits m - 1 \<and> mont_n m < mont_r m \<and>
     mont_r m dvd mont_n m * mont_nPrime m + 1 \<and> 0 \<le> mont_nPrime m"

text \<open>The Montgomery form of a value: \<open>v * r mod n\<close>.\<close>

definition mrep :: "MontgomeryReducer \<Rightarrow> int \<Rightarrow> int" where
  "mrep m v = (v * mont_r m) mod mont_n m"

text \<open>The value of a string of binary digits, and the strings made of them.\<close>

definition bitsVal :: "string \<Rightarrow> nat" where
  "bitsVal s = foldl (\<lambda>a c. 2 * a + (if c = CHR ''1'' then 1 else 0)) 0 s"

definition isBits :: "string \<Rightarrow> bool" where
  "isBits s \<longleftrightarrow> set s \<subseteq> {CHR ''0'', CHR ''1''}"

text \<open>Primality of a natural number.\<close>

definition prime_nat :: "nat \<Rightarrow> bool" where
  "prime_nat p \<longleftrightarrow> 1 < p \<and> (\<forall>d. d dvd p \<longrightarrow> d = 1 \<or> d = p)"

text \<open>
  The encodings in the words of the transcript format: \<open>be_bytes len v\<close> is \<open>v\<close>
  big-endian in exactly \<open>len\<close> bytes (byte \<open>i\<close> is \<open>v div 256 ^ (len - 1 - i)\<close>
  modulo 256), zero-padded on the left when \<open>v\<close> is shorter; \<open>be_int\<close> reads bytes as a
  big-endian integer.
\<close>

definition be_bytes :: "nat \<Rightarrow> int \<Rightarrow> byte list" where
  "be_bytes len v = map (\<lambda>i. word_of_int (v div 256 ^ (len - 1 - i))) [0..<len]"

definition be_int :: "byte list \<Rightarrow> int" where
  "be_int bs = foldl (\<lambda>a b. a * 256 + uint b) 0 bs"

text \<open>The bytes of a positive number: its hexadecimal digits, padded and decoded.\<close>

definition hexBytes :: "nat \<Rightarrow> byte list" where
  "hexBytes m =
     hexDecode (if length (natToString 16 m) mod 2 = 1 then CHR ''0'' # natToString 16 m
                else natToString 16 m)"

text \<open>Divisible by none of 2, 3, 5, 7: what the wheel modulo 210 keeps.\<close>

definition coprime210 :: "int \<Rightarrow> bool" where
  "coprime210 m \<longleftrightarrow> m mod 2 \<noteq> 0 \<and> m mod 3 \<noteq> 0 \<and> m mod 5 \<noteq> 0 \<and> m mod 7 \<noteq> 0"

section \<open>Basic facts about the helpers\<close>

lemma smod_nonneg: "0 \<le> a \<Longrightarrow> 0 \<le> b \<Longrightarrow> a smod b = a mod (b::int)"
  by (cases "a = 0") (simp_all add: signed_modulo_int_def sgn_if)

lemma and_mask_int: "(x::int) AND (2 ^ k - 1) = x mod 2 ^ k"
  by (simp add: take_bit_eq_mod [symmetric] take_bit_eq_mask mask_eq_exp_minus_1)

lemma and_one_int: "(x::int) AND 1 = x mod 2"
  using and_mask_int [of x 1] by simp

lemma gcd_bigint_eq: "0 \<le> a \<Longrightarrow> 0 \<le> b \<Longrightarrow> gcd_bigint a b = gcd a b"
proof (induction a b rule: gcd_bigint.induct)
  case (1 a b)
  show ?case
  proof (cases "b = 0")
    case True
    with 1 show ?thesis by (subst gcd_bigint.simps) simp
  next
    case False
    with 1 have b: "0 < b" by simp
    have sm: "a smod b = a mod b" using 1 by (simp add: smod_nonneg)
    have "gcd_bigint a b = gcd_bigint b (a smod b)"
      using False by (subst gcd_bigint.simps) simp
    also have "\<dots> = gcd b (a smod b)"
      using 1 False b by (simp add: sm)
    also have "\<dots> = gcd a b"
      using gcd_red_int [of a b] by (simp add: sm)
    finally show ?thesis .
  qed
qed


lemma natToString_length_pos: "0 < length (natToString b m)"
  by (induction b m rule: natToString.induct) (subst natToString.simps, simp)

lemma natToString_bounds:
  "2 \<le> b \<Longrightarrow> 0 < m \<Longrightarrow>
     b ^ (length (natToString b m) - 1) \<le> m \<and> m < b ^ length (natToString b m)"
proof (induction b m rule: natToString.induct)
  case (1 radix m)
  show ?case
  proof (cases "m < radix")
    case True
    with 1 show ?thesis by (subst (1 2) natToString.simps) simp
  next
    case False
    with 1 have q: "0 < m div radix" by (simp add: div_greater_zero_iff)
    let ?s = "natToString radix (m div radix)"
    from 1 False q have IH: "radix ^ (length ?s - 1) \<le> m div radix" "m div radix < radix ^ length ?s"
      by auto
    have len: "length (natToString radix m) = Suc (length ?s)"
      using 1 False by (subst natToString.simps) simp
    have pos: "0 < length ?s" by (rule natToString_length_pos)
    have "radix ^ length ?s = radix ^ (length ?s - 1) * radix"
      using pos by (cases "length ?s") simp_all
    also have "\<dots> \<le> (m div radix) * radix" using IH(1) by simp
    also have "\<dots> \<le> m" by simp
    finally have lo: "radix ^ length ?s \<le> m" .
    have "m mod radix < radix" using 1(2) by simp
    moreover have "m = (m div radix) * radix + m mod radix" by simp
    ultimately have "m < (m div radix) * radix + radix" by linarith
    then have "m < (m div radix + 1) * radix" by (simp add: algebra_simps)
    also have "\<dots> \<le> radix ^ length ?s * radix"
      using IH(2) by (intro mult_le_mono1) simp
    finally have hi: "m < radix ^ Suc (length ?s)" by (simp add: mult.commute)
    show ?thesis using lo hi len by simp
  qed
qed

lemma toString2_bounds:
  assumes "0 < (n::int)"
  shows "2 ^ (length (toString n 2) - 1) \<le> n" and "n < 2 ^ length (toString n 2)"
proof -
  let ?k = "length (natToString 2 (nat n))"
  have b: "2 ^ (?k - 1) \<le> nat n \<and> nat n < 2 ^ ?k"
    using assms by (intro natToString_bounds) simp_all
  have eq: "toString n 2 = natToString 2 (nat n)" using assms by (simp add: toString_def)
  from b have "int (2 ^ (?k - 1)) \<le> int (nat n)" by (simp only: of_nat_le_iff)
  then show "2 ^ (length (toString n 2) - 1) \<le> n" using assms eq by simp
  from b have "int (nat n) < int (2 ^ ?k)" by (simp only: of_nat_less_iff)
  then show "n < 2 ^ length (toString n 2)" using assms eq by simp
qed

section \<open>The Montgomery reducer\<close>

lemma MontgomeryReducer_new_eq:
  assumes "0 < n"
  defines "k \<equiv> length (toString n 2)"
  shows "MontgomeryReducer_new n =
           Inr \<lparr> mont_n = n, mont_rBits = k, mont_rMask = 2 ^ k - 1,
                  mont_nPrime = computeNPrime n k (2 ^ k - 1) (2 ^ k), mont_r = 2 ^ k \<rparr>"
proof -
  have "n < 2 ^ k" unfolding k_def using assms(1) by (rule toString2_bounds)
  then have "\<not> push_bit k 1 \<le> n" by (simp add: push_bit_eq_mult)
  then show ?thesis
    by (simp add: MontgomeryReducer_new_def Let_def k_def [symmetric] push_bit_eq_mult)
qed

lemma hensel_step:
  fixes n y :: int
  assumes "1 \<le> i" and "2 ^ min i k dvd n * y - 1"
  shows "2 ^ min (Suc i) k dvd n * ((y * (2 - n * y)) AND (2 ^ k - 1)) - 1"
proof -
  let ?y' = "(y * (2 - n * y)) mod 2 ^ k"
  have le: "min (Suc i) k \<le> 2 * min i k" using assms(1) by (simp add: min_def)
  have lek: "min (Suc i) k \<le> k" by simp
  have "(2::int) ^ (2 * min i k) dvd (n * y - 1) * (n * y - 1)"
    using mult_dvd_mono [OF assms(2) assms(2)] by (simp add: power2_eq_square power_mult mult_2 power_add)
  then have d1: "(2::int) ^ min (Suc i) k dvd (n * y - 1) * (n * y - 1)"
    using le by (meson dvd_trans le_imp_power_dvd)
  have "(2::int) ^ k dvd y * (2 - n * y) - ?y'"
    by (simp add: mod_eq_dvd_iff [symmetric])
  then have "(2::int) ^ min (Suc i) k dvd y * (2 - n * y) - ?y'"
    using lek by (meson dvd_trans le_imp_power_dvd)
  then have d2: "(2::int) ^ min (Suc i) k dvd n * (y * (2 - n * y) - ?y')"
    by (rule dvd_mult)
  have "n * ?y' - 1 = - ((n * y - 1) * (n * y - 1)) - n * (y * (2 - n * y) - ?y')"
    by (simp add: algebra_simps)
  then have "(2::int) ^ min (Suc i) k dvd n * ?y' - 1"
    using d1 d2 by (simp add: dvd_diff)
  then show ?thesis by (simp add: and_mask_int)
qed

lemma hensel_loop:
  fixes n y :: int
  assumes "1 \<le> i" and "2 ^ min i k dvd n * y - 1"
  shows "2 ^ min (i + j) k dvd n * computeNPrime_loop n (2 ^ k - 1) j y - 1"
  using assms
proof (induction j arbitrary: i y)
  case 0
  then show ?case by simp
next
  case (Suc j)
  have "2 ^ min (Suc i) k dvd n * ((y * (2 - n * y)) AND (2 ^ k - 1)) - 1"
    using Suc.prems by (rule hensel_step)
  from Suc.IH [OF _ this] show ?case by simp
qed

lemma computeNPrime_correct:
  fixes n :: int
  assumes "odd n"
  shows "2 ^ k dvd n * computeNPrime n k (2 ^ k - 1) (2 ^ k) + 1"
    and "0 \<le> computeNPrime n k (2 ^ k - 1) (2 ^ k)"
    and "computeNPrime n k (2 ^ k - 1) (2 ^ k) < 2 ^ k"
proof -
  define y where "y = computeNPrime_loop n (2 ^ k - 1) k 1"
  define R :: int where "R = 2 ^ k"
  define np where "np = (R - y) mod R"
  have Rpos: "0 < R" by (simp add: R_def)
  have np: "computeNPrime n k (2 ^ k - 1) (2 ^ k) = np"
    by (simp add: computeNPrime_def and_mask_int np_def y_def R_def)
  have "(2::int) ^ min 1 k dvd n * 1 - 1"
  proof (cases k)
    case 0
    then show ?thesis by simp
  next
    case (Suc k')
    then show ?thesis using assms by (simp add: min_def)
  qed
  from hensel_loop [OF _ this, of k] have d: "R dvd n * y - 1" by (simp add: y_def R_def)
  have "R dvd (R - y) - np" unfolding np_def by (simp add: mod_eq_dvd_iff [symmetric])
  then obtain q where q: "(R - y) - np = R * q" by (auto simp: dvd_def)
  from d obtain p where p: "n * y - 1 = R * p" by (auto simp: dvd_def)
  have e: "np = R - y - R * q" using q by simp
  have "n * np + 1 = n * (R - y - R * q) + 1" by (subst e) (rule refl)
  also have "\<dots> = n * R - (n * y - 1) - n * R * q" by (simp add: algebra_simps)
  also have "\<dots> = R * (n - p - n * q)" by (simp add: p algebra_simps)
  finally have "R dvd n * np + 1" by simp
  then show "2 ^ k dvd n * computeNPrime n k (2 ^ k - 1) (2 ^ k) + 1" by (simp add: np R_def)
  show "0 \<le> computeNPrime n k (2 ^ k - 1) (2 ^ k)" using Rpos by (simp add: np np_def)
  show "computeNPrime n k (2 ^ k - 1) (2 ^ k) < 2 ^ k"
    using Rpos by (simp add: np np_def R_def)
qed

lemma MontgomeryReducer_new_inv:
  assumes "odd n" and "1 < n"
  shows "\<exists>m. MontgomeryReducer_new n = Inr m \<and> mont_inv m \<and> mont_n m = n"
proof -
  let ?k = "length (toString n 2)"
  from assms have pos: "0 < n" by simp
  have "n < 2 ^ ?k" using pos by (rule toString2_bounds)
  then show ?thesis
    using MontgomeryReducer_new_eq [OF pos] computeNPrime_correct [OF assms(1), of ?k] assms
    by (simp add: mont_inv_def)
qed

lemma reduce_correct:
  assumes inv: "mont_inv m" and x: "0 \<le> x" "x < mont_n m * mont_r m"
  shows "0 \<le> reduce m x" and "reduce m x < mont_n m"
    and "(reduce m x * mont_r m) mod mont_n m = x mod mont_n m"
proof -
  define n where "n = mont_n m"
  define r where "r = mont_r m"
  define k where "k = mont_rBits m"
  define n' where "n' = mont_nPrime m"
  from inv have r: "r = 2 ^ k" and mask: "mont_rMask m = 2 ^ k - 1" and n1: "1 < n"
    and nr: "n < r" and n'0: "0 \<le> n'"
    by (simp_all add: mont_inv_def n_def r_def k_def n'_def)
  from inv have dv: "r dvd n * n' + 1"
    unfolding mont_inv_def n_def r_def n'_def by blast
  have rpos: "0 < r" by (simp add: r)
  define mm where "mm = ((x mod r) * n') mod r"
  define t where "t = (x + mm * n) div r"
  have mm0: "0 \<le> mm" and mmr: "mm < r" using rpos by (simp_all add: mm_def)
  have am: "\<And>v. v AND mont_rMask m = v mod r" by (simp add: mask and_mask_int r)
  have db: "\<And>v. drop_bit (mont_rBits m) v = v div r"
    by (simp add: drop_bit_eq_div r k_def)
  have red: "reduce m x = (if t \<ge> n then t - n else t)"
    unfolding reduce_def Let_def am db t_def mm_def n_def n'_def by (rule refl)
  have "r dvd x * n' - mm"
    unfolding mm_def by (simp add: mod_eq_dvd_iff [symmetric] mod_mult_left_eq)
  then have "r dvd (x * n' - mm) * n" by (rule dvd_mult2)
  moreover have "r dvd x * (n * n' + 1)" using dv by (rule dvd_mult)
  moreover have "x + mm * n = x * (n * n' + 1) - (x * n' - mm) * n" by (simp add: algebra_simps)
  ultimately have dvd: "r dvd x + mm * n" by (simp add: dvd_diff)
  then have tr: "t * r = x + mm * n" by (simp add: t_def)
  have "0 \<le> x + mm * n" using x(1) mm0 n1 by simp
  then have t0: "0 \<le> t" using rpos by (simp add: t_def pos_imp_zdiv_nonneg_iff)
  have "mm * n < r * n" using mmr n1 by (simp add: mult_strict_right_mono)
  moreover have "x < n * r" using x(2) by (simp add: n_def r_def)
  moreover have "2 * n * r = n * r + r * n" by simp
  ultimately have "x + mm * n < 2 * n * r" by linarith
  then have "t * r < (2 * n) * r" using tr by simp
  then have t2: "t < 2 * n" using rpos by (simp add: mult_less_cancel_right)
  show "0 \<le> reduce m x" using red t0 by simp
  show "reduce m x < mont_n m" using red t2 by (simp add: n_def)
  have "(reduce m x * r) mod n = (t * r) mod n"
  proof (cases "t \<ge> n")
    case True
    then have "reduce m x * r = t * r - r * n" by (simp add: red algebra_simps)
    then show ?thesis by (simp add: mod_diff_right_eq [symmetric] del: mod_diff_right_eq)
  next
    case False
    then show ?thesis by (simp add: red)
  qed
  also have "\<dots> = x mod n" by (simp add: tr)
  finally show "(reduce m x * mont_r m) mod mont_n m = x mod mont_n m"
    by (simp add: n_def r_def)
qed

section \<open>Arithmetic in Montgomery form\<close>

lemma mont_inv_pos: "mont_inv m \<Longrightarrow> 0 < mont_n m" "mont_inv m \<Longrightarrow> 0 < mont_r m"
  by (simp_all add: mont_inv_def)

lemma mrep_range: "mont_inv m \<Longrightarrow> 0 \<le> mrep m v" "mont_inv m \<Longrightarrow> mrep m v < mont_n m"
  by (simp_all add: mrep_def mont_inv_pos)

lemma mont_coprime: "mont_inv m \<Longrightarrow> coprime (mont_n m) (mont_r m)"
  by (simp add: mont_inv_def)

lemma mont_cancel:
  assumes "mont_inv m" and "(a * mont_r m) mod mont_n m = (b * mont_r m) mod mont_n m"
  shows "a mod mont_n m = b mod mont_n m"
proof -
  from assms(2) have "mont_n m dvd a * mont_r m - b * mont_r m"
    by (simp add: mod_eq_dvd_iff)
  then have "mont_n m dvd (a - b) * mont_r m" by (simp add: algebra_simps)
  then have "mont_n m dvd a - b"
    using mont_coprime [OF assms(1)] by (simp add: coprime_dvd_mult_left_iff)
  then show ?thesis by (simp add: mod_eq_dvd_iff)
qed

lemma toMontgomery_mrep: "mont_inv m \<Longrightarrow> 0 \<le> x \<Longrightarrow> toMontgomery m x = mrep m x"
  using mont_inv_pos [of m] by (simp add: toMontgomery_def mrep_def smod_nonneg)

lemma reduce_mrep:
  assumes inv: "mont_inv m" and x: "0 \<le> x" "x < mont_n m * mont_r m"
    and eq: "x mod mont_n m = (v * mont_r m * mont_r m) mod mont_n m"
  shows "reduce m x = mrep m v"
proof -
  have "(reduce m x * mont_r m) mod mont_n m = ((v * mont_r m) * mont_r m) mod mont_n m"
    using reduce_correct(3) [OF inv x] eq by simp
  then have "reduce m x mod mont_n m = (v * mont_r m) mod mont_n m"
    by (rule mont_cancel [OF inv])
  moreover have "reduce m x mod mont_n m = reduce m x"
    using reduce_correct(1,2) [OF inv x] by simp
  ultimately show ?thesis by (simp add: mrep_def)
qed

lemma mrep_mult_bound:
  assumes "mont_inv m"
  shows "0 \<le> mrep m a * mrep m b" and "mrep m a * mrep m b < mont_n m * mont_r m"
proof -
  have a: "0 \<le> mrep m a" "mrep m a < mont_n m" and b: "0 \<le> mrep m b" "mrep m b < mont_n m"
    using assms by (simp_all add: mrep_range)
  show "0 \<le> mrep m a * mrep m b" using a b by simp
  have "mrep m a * mrep m b \<le> mont_n m * mrep m b"
    using a b by (intro mult_right_mono) simp_all
  also have "\<dots> < mont_n m * mont_r m"
    using b assms by (intro mult_strict_left_mono) (simp_all add: mont_inv_def)
  finally show "mrep m a * mrep m b < mont_n m * mont_r m" .
qed

lemma multiply_mrep:
  assumes "mont_inv m"
  shows "multiply m (mrep m a) (mrep m b) = mrep m (a * b)"
  unfolding multiply_def
proof (rule reduce_mrep [OF assms mrep_mult_bound [OF assms]])
  have "(mrep m a * mrep m b) mod mont_n m = ((a * mont_r m) * (b * mont_r m)) mod mont_n m"
    unfolding mrep_def by (simp add: mod_mult_eq)
  also have "(a * mont_r m) * (b * mont_r m) = a * b * mont_r m * mont_r m" by simp
  finally show "(mrep m a * mrep m b) mod mont_n m = (a * b * mont_r m * mont_r m) mod mont_n m" .
qed

lemma square_mrep: "mont_inv m \<Longrightarrow> square m (mrep m a) = mrep m (a * a)"
  using multiply_mrep [of m a a] by (simp add: square_def multiply_def)

lemma fromMontgomery_mrep:
  assumes inv: "mont_inv m"
  shows "fromMontgomery m (mrep m a) = a mod mont_n m"
proof -
  have x: "0 \<le> mrep m a" "mrep m a < mont_n m * mont_r m"
  proof -
    show "0 \<le> mrep m a" using inv by (simp add: mrep_range)
    have "mrep m a < mont_n m" using inv by (simp add: mrep_range)
    also have "mont_n m * 1 \<le> mont_n m * mont_r m"
      using inv by (intro mult_left_mono) (simp_all add: mont_inv_def)
    finally show "mrep m a < mont_n m * mont_r m" by simp
  qed
  have "(reduce m (mrep m a) * mont_r m) mod mont_n m = (a * mont_r m) mod mont_n m"
    using reduce_correct(3) [OF inv x] by (simp add: mrep_def)
  then have "reduce m (mrep m a) mod mont_n m = a mod mont_n m"
    by (rule mont_cancel [OF inv])
  moreover have "reduce m (mrep m a) mod mont_n m = reduce m (mrep m a)"
    using reduce_correct(1,2) [OF inv x] by simp
  ultimately show ?thesis by (simp add: fromMontgomery_def)
qed

section \<open>The squaring loops of evaluate\<close>

lemma evaluate_loop_eq:
  "0 < n \<Longrightarrow> 0 \<le> h \<Longrightarrow> h < n \<Longrightarrow> evaluate_loop n k h = h ^ (2 ^ k) mod n"
proof (induction k arbitrary: h)
  case 0
  then show ?case by simp
next
  case (Suc k)
  have sm: "(h * h) smod n = (h * h) mod n" using Suc.prems by (simp add: smod_nonneg)
  have "evaluate_loop n (Suc k) h = evaluate_loop n k ((h * h) mod n)" by (simp add: sm)
  also have "\<dots> = ((h * h) mod n) ^ (2 ^ k) mod n"
    using Suc.prems by (intro Suc.IH) simp_all
  also have "\<dots> = (h * h) ^ (2 ^ k) mod n" by (simp add: power_mod)
  also have "(h * h) ^ (2 ^ k) = h ^ (2 ^ Suc k)"
    by (simp add: power2_eq_square [symmetric] power_mult [symmetric])
  finally show ?case .
qed

lemma evaluate_loop_funpow:
  "evaluate_loop n k h = ((\<lambda>h. (h * h) smod n) ^^ k) h"
proof (induction k arbitrary: h)
  case 0
  then show ?case by simp
next
  case (Suc k)
  have "((\<lambda>h. (h * h) smod n) ^^ Suc k) h = ((\<lambda>h. (h * h) smod n) ^^ k) ((h * h) smod n)"
    by (simp only: funpow_Suc_right o_apply)
  then show ?case by (simp only: evaluate_loop.simps Suc.IH)
qed

lemma evaluate_loop_mont_eq:
  "mont_inv m \<Longrightarrow> evaluate_loop_mont m k (mrep m v) = mrep m (v ^ (2 ^ k))"
proof (induction k arbitrary: v)
  case 0
  then show ?case by simp
next
  case (Suc k)
  have "evaluate_loop_mont m (Suc k) (mrep m v) = evaluate_loop_mont m k (mrep m (v * v))"
    using Suc.prems by (simp add: square_mrep)
  also have "\<dots> = mrep m ((v * v) ^ (2 ^ k))" using Suc.prems by (rule Suc.IH)
  also have "(v * v) ^ (2 ^ k) = v ^ (2 ^ Suc k)"
    by (simp add: power2_eq_square [symmetric] power_mult [symmetric])
  finally show ?case .
qed

section \<open>The long division loops of prove\<close>

lemma long_division_step:
  fixes r l :: int
  assumes "0 \<le> r" "r < l"
  shows "(2 * r) div l = (if 2 * r \<ge> l then 1 else 0)"
    and "(2 * r) mod l = (if 2 * r \<ge> l then 2 * r - l else 2 * r)"
proof -
  have "2 * r \<ge> l \<Longrightarrow> (2 * r) div l = 1"
    using assms by (intro int_div_pos_eq [where r = "2 * r - l"]) simp_all
  moreover have "\<not> 2 * r \<ge> l \<Longrightarrow> (2 * r) div l = 0" using assms by simp
  ultimately show d: "(2 * r) div l = (if 2 * r \<ge> l then 1 else 0)" by simp
  have "(2 * r) mod l = 2 * r - l * ((2 * r) div l)" by (simp add: minus_mult_div_eq_mod)
  then show "(2 * r) mod l = (if 2 * r \<ge> l then 2 * r - l else 2 * r)" by (simp add: d)
qed

lemma long_division_next:
  fixes r l :: int
  assumes "0 \<le> r" "0 < l"
  shows "nat ((r * 2 ^ Suc k) div l) = nat ((2 * r) div l) * 2 ^ k + nat ((((2 * r) mod l) * 2 ^ k) div l)"
    and "(r * 2 ^ Suc k) mod l = (((2 * r) mod l) * 2 ^ k) mod l"
proof -
  define b where "b = (2 * r) div l"
  define r' where "r' = (2 * r) mod l"
  have b0: "0 \<le> b" using assms by (simp add: b_def pos_imp_zdiv_nonneg_iff)
  have r'0: "0 \<le> r'" using assms by (simp add: r'_def)
  have e: "r * 2 ^ Suc k = r' * 2 ^ k + (b * 2 ^ k) * l"
  proof -
    have "2 * r = b * l + r'" by (simp add: b_def r'_def)
    then have "r * 2 ^ Suc k = (b * l + r') * 2 ^ k" by simp
    then show ?thesis by (simp add: algebra_simps)
  qed
  have d: "(r * 2 ^ Suc k) div l = (r' * 2 ^ k) div l + b * 2 ^ k"
    using assms(2) by (simp only: e div_mult_self1)
  have q0: "0 \<le> (r' * 2 ^ k) div l" using r'0 assms(2) by (simp add: pos_imp_zdiv_nonneg_iff)
  have "nat ((r * 2 ^ Suc k) div l) = nat ((r' * 2 ^ k) div l + b * 2 ^ k)"
    by (simp only: d)
  also have "\<dots> = nat ((r' * 2 ^ k) div l) + nat (b * 2 ^ k)"
    using q0 b0 by (intro nat_add_distrib) simp_all
  also have "nat (b * 2 ^ k) = nat b * 2 ^ k" using b0 by (simp add: nat_mult_distrib nat_power_eq)
  finally show "nat ((r * 2 ^ Suc k) div l) = nat ((2 * r) div l) * 2 ^ k + nat ((((2 * r) mod l) * 2 ^ k) div l)"
    by (simp add: b_def r'_def)
  show "(r * 2 ^ Suc k) mod l = (((2 * r) mod l) * 2 ^ k) mod l"
    by (simp only: e mod_mult_self1 r'_def)
qed

lemma prove_loop_inv:
  assumes "0 < n" "0 \<le> x" "0 \<le> r" "r < l"
  shows "prove_loop n x l k (x ^ q mod n, r) =
           (x ^ (q * 2 ^ k + nat ((r * 2 ^ k) div l)) mod n, (r * 2 ^ k) mod l)"
  using assms(3,4)
proof (induction k arbitrary: q r)
  case 0
  then show ?case by simp
next
  case (Suc k)
  have l: "0 < l" using Suc.prems by simp
  have sq: "((x ^ q mod n) * (x ^ q mod n)) smod n = x ^ (2 * q) mod n"
    using assms(1) by (simp add: smod_nonneg mod_mult_eq power_add mult_2)
  have "((x ^ (2 * q) mod n) * x) smod n = ((x ^ (2 * q) mod n) * x) mod n"
    using assms(1,2) by (intro smod_nonneg) simp_all
  also have "\<dots> = (x ^ (2 * q) * x) mod n" by (rule mod_mult_left_eq)
  also have "x ^ (2 * q) * x = x ^ (2 * q + 1)" by simp
  finally have mx: "((x ^ (2 * q) mod n) * x) smod n = x ^ (2 * q + 1) mod n" .
  note st = long_division_step [OF Suc.prems]
  note nx = long_division_next [OF Suc.prems(1) l, of k]
  show ?case
  proof (cases "2 * r \<ge> l")
    case True
    have r': "0 \<le> 2 * r - l" "2 * r - l < l" using True Suc.prems by simp_all
    have "prove_loop n x l (Suc k) (x ^ q mod n, r) = prove_loop n x l k (x ^ (2 * q + 1) mod n, 2 * r - l)"
      using True by (simp add: Let_def push_bit_eq_mult sq mx mult.commute [of r 2] del: power.simps)
    also have "\<dots> = (x ^ ((2 * q + 1) * 2 ^ k + nat (((2 * r - l) * 2 ^ k) div l)) mod n,
                      ((2 * r - l) * 2 ^ k) mod l)"
      using r' by (rule Suc.IH)
    also have "(2 * q + 1) * 2 ^ k + nat (((2 * r - l) * 2 ^ k) div l) = q * 2 ^ Suc k + nat ((r * 2 ^ Suc k) div l)"
      using True by (simp only: nx st) (simp add: algebra_simps)
    also have "((2 * r - l) * 2 ^ k) mod l = (r * 2 ^ Suc k) mod l"
      using True by (simp only: nx st) simp
    finally show ?thesis .
  next
    case False
    have r': "0 \<le> 2 * r" "2 * r < l" using False Suc.prems by simp_all
    have "prove_loop n x l (Suc k) (x ^ q mod n, r) = prove_loop n x l k (x ^ (2 * q) mod n, 2 * r)"
      using False by (simp add: Let_def push_bit_eq_mult sq mult.commute [of r 2] del: power.simps)
    also have "\<dots> = (x ^ ((2 * q) * 2 ^ k + nat (((2 * r) * 2 ^ k) div l)) mod n,
                      ((2 * r) * 2 ^ k) mod l)"
      using r' by (rule Suc.IH)
    also have "(2 * q) * 2 ^ k + nat (((2 * r) * 2 ^ k) div l) = q * 2 ^ Suc k + nat ((r * 2 ^ Suc k) div l)"
      using False by (simp only: nx st) (simp add: algebra_simps)
    also have "((2 * r) * 2 ^ k) mod l = (r * 2 ^ Suc k) mod l"
      using False by (simp only: nx st) simp
    finally show ?thesis .
  qed
qed

lemma prove_loop_mont_inv:
  assumes "mont_inv m" "0 \<le> r" "r < l"
  shows "prove_loop_mont m (mrep m x) l k (mrep m (x ^ q), r) =
           (mrep m (x ^ (q * 2 ^ k + nat ((r * 2 ^ k) div l))), (r * 2 ^ k) mod l)"
  using assms(2,3)
proof (induction k arbitrary: q r)
  case 0
  then show ?case by simp
next
  case (Suc k)
  have l: "0 < l" using Suc.prems by simp
  have sq: "square m (mrep m (x ^ q)) = mrep m (x ^ (2 * q))"
    using assms(1) by (simp add: square_mrep power_add mult_2)
  have mx: "multiply m (mrep m (x ^ (2 * q))) (mrep m x) = mrep m (x ^ (2 * q + 1))"
    using assms(1) by (simp add: multiply_mrep mult.commute)
  note st = long_division_step [OF Suc.prems]
  note nx = long_division_next [OF Suc.prems(1) l, of k]
  show ?case
  proof (cases "2 * r \<ge> l")
    case True
    have r': "0 \<le> 2 * r - l" "2 * r - l < l" using True Suc.prems by simp_all
    have "prove_loop_mont m (mrep m x) l (Suc k) (mrep m (x ^ q), r) =
            prove_loop_mont m (mrep m x) l k (mrep m (x ^ (2 * q + 1)), 2 * r - l)"
      using True by (simp add: Let_def push_bit_eq_mult sq mx mult.commute [of r 2] del: power.simps)
    also have "\<dots> = (mrep m (x ^ ((2 * q + 1) * 2 ^ k + nat (((2 * r - l) * 2 ^ k) div l))),
                      ((2 * r - l) * 2 ^ k) mod l)"
      using r' by (rule Suc.IH)
    also have "(2 * q + 1) * 2 ^ k + nat (((2 * r - l) * 2 ^ k) div l) = q * 2 ^ Suc k + nat ((r * 2 ^ Suc k) div l)"
      using True by (simp only: nx st) (simp add: algebra_simps)
    also have "((2 * r - l) * 2 ^ k) mod l = (r * 2 ^ Suc k) mod l"
      using True by (simp only: nx st) simp
    finally show ?thesis .
  next
    case False
    have r': "0 \<le> 2 * r" "2 * r < l" using False Suc.prems by simp_all
    have "prove_loop_mont m (mrep m x) l (Suc k) (mrep m (x ^ q), r) =
            prove_loop_mont m (mrep m x) l k (mrep m (x ^ (2 * q)), 2 * r)"
      using False by (simp add: Let_def push_bit_eq_mult sq mult.commute [of r 2] del: power.simps)
    also have "\<dots> = (mrep m (x ^ ((2 * q) * 2 ^ k + nat (((2 * r) * 2 ^ k) div l))),
                      ((2 * r) * 2 ^ k) mod l)"
      using r' by (rule Suc.IH)
    also have "(2 * q) * 2 ^ k + nat (((2 * r) * 2 ^ k) div l) = q * 2 ^ Suc k + nat ((r * 2 ^ Suc k) div l)"
      using False by (simp only: nx st) (simp add: algebra_simps)
    also have "((2 * r) * 2 ^ k) mod l = (r * 2 ^ Suc k) mod l"
      using False by (simp only: nx st) simp
    finally show ?thesis .
  qed
qed

section \<open>Routing and the reducer\<close>

lemma shouldUseMontgomery_odd: "shouldUseMontgomery n t \<Longrightarrow> odd n"
  by (auto simp: shouldUseMontgomery_def and_one_int split: if_splits)

lemma shouldUseMontgomeryForModpow_odd: "shouldUseMontgomeryForModpow n e \<Longrightarrow> odd n"
  by (auto simp: shouldUseMontgomeryForModpow_def and_one_int split: if_splits)

lemma MontgomeryReducer_new_total: "\<exists>m. MontgomeryReducer_new n = Inr m \<and> mont_n m = n"
  by (simp add: MontgomeryReducer_new_def Let_def)

lemma mont_inverse:
  assumes "mont_inv m"
  shows "\<exists>ri. (mont_r m * ri) mod mont_n m = 1"
proof -
  from bezout_int [of "mont_r m" "mont_n m"] mont_coprime [OF assms]
  obtain u v where "u * mont_r m + v * mont_n m = 1" by (auto simp: coprime_iff_gcd_eq_1 gcd.commute)
  then have "mont_r m * u = 1 - v * mont_n m" by (simp add: algebra_simps)
  then have "(mont_r m * u) mod mont_n m = (1 - v * mont_n m) mod mont_n m" by simp
  also have "\<dots> = 1 mod mont_n m" by (simp add: mod_diff_right_eq [symmetric] del: mod_diff_right_eq)
  also have "\<dots> = 1" using assms by (simp add: mont_inv_def)
  finally show ?thesis by blast
qed

section \<open>evaluate and prove\<close>

lemma nested_squaring:
  fixes x n :: int
  shows "((\<lambda>h. (h * h) mod n) ^^ k) x mod n = x ^ (2 ^ k) mod n"
proof (induction k)
  case 0
  then show ?case by simp
next
  case (Suc k)
  let ?f = "\<lambda>h. (h * h) mod n"
  have "(?f ^^ Suc k) x mod n = (((?f ^^ k) x) * ((?f ^^ k) x)) mod n" by simp
  also have "\<dots> = ((((?f ^^ k) x) mod n) * (((?f ^^ k) x) mod n)) mod n"
    by (simp add: mod_mult_eq)
  also have "\<dots> = ((x ^ (2 ^ k) mod n) * (x ^ (2 ^ k) mod n)) mod n" by (simp only: Suc.IH)
  also have "\<dots> = (x ^ (2 ^ k) * x ^ (2 ^ k)) mod n" by (simp add: mod_mult_eq)
  also have "x ^ (2 ^ k) * x ^ (2 ^ k) = x ^ (2 ^ Suc k)"
    by (simp add: power_add [symmetric] mult_2)
  finally show ?case .
qed

lemma nested_squaring_eq:
  fixes x n :: int
  assumes "0 \<le> x" "x < n"
  shows "((\<lambda>h. (h * h) mod n) ^^ k) x = x ^ (2 ^ k) mod n"
proof (cases k)
  case 0
  then show ?thesis using assms by simp
next
  case (Suc j)
  have "((\<lambda>h. (h * h) mod n) ^^ k) x = ((\<lambda>h. (h * h) mod n) ^^ k) x mod n"
    by (simp add: Suc)
  then show ?thesis by (simp only: nested_squaring)
qed

lemma evaluate_mont_path:
  assumes "odd n" "1 < n" "0 \<le> x"
  shows "\<exists>m. getMontgomeryReducer n = Inr m \<and>
           fromMontgomery m (evaluate_loop_mont m k (toMontgomery m x)) = x ^ (2 ^ k) mod n"
proof -
  from MontgomeryReducer_new_inv [OF assms(1,2)]
  obtain m where m: "MontgomeryReducer_new n = Inr m" "mont_inv m" "mont_n m = n" by blast
  have "fromMontgomery m (evaluate_loop_mont m k (toMontgomery m x)) = x ^ (2 ^ k) mod n"
    using m(2) assms(3)
    by (simp add: toMontgomery_mrep evaluate_loop_mont_eq fromMontgomery_mrep m(3))
  then show ?thesis using m(1) by (simp add: getMontgomeryReducer_def)
qed

lemma evaluate_ok:
  assumes "1 < n" "0 < x" "x < n" "gcd x n = 1" "0 < t"
  shows "evaluate x n t = Inr \<lparr> vdf_x = x, vdf_h = x ^ (2 ^ nat t) mod n, vdf_t = t, vdf_n = n \<rparr>"
proof -
  have g: "gcd_bigint x n = 1" using assms by (simp add: gcd_bigint_eq)
  show ?thesis
  proof (cases "shouldUseMontgomery n t")
    case True
    then have "odd n" by (rule shouldUseMontgomery_odd)
    from evaluate_mont_path [OF this assms(1), of x "nat t"] assms(2)
    obtain m where m: "getMontgomeryReducer n = Inr m"
      "fromMontgomery m (evaluate_loop_mont m (nat t) (toMontgomery m x)) = x ^ (2 ^ nat t) mod n"
      by auto
    show ?thesis using assms g True m by (simp add: evaluate_def Let_def)
  next
    case False
    have "evaluate_loop n (nat t) x = x ^ (2 ^ nat t) mod n"
      using assms by (intro evaluate_loop_eq) simp_all
    then show ?thesis using assms g False by (simp add: evaluate_def)
  qed
qed

lemma evaluate_raises:
  assumes "x \<le> 0 \<or> x \<ge> n \<or> gcd x n \<noteq> 1 \<or> t \<le> 0"
  shows "\<exists>e. evaluate x n t = Inl e"
proof (cases "x \<le> 0 \<or> x \<ge> n")
  case True
  then show ?thesis by (auto simp: evaluate_def)
next
  case False
  then have "gcd_bigint x n = gcd x n" by (intro gcd_bigint_eq) simp_all
  then show ?thesis using assms False by (auto simp: evaluate_def)
qed

lemma prove_loop_start:
  assumes "1 < n" "0 \<le> x" "1 < l"
  shows "prove_loop n x l k (1, 1) = (x ^ nat (2 ^ k div l) mod n, 2 ^ k mod l)"
proof -
  have "prove_loop n x l k (x ^ 0 mod n, 1) =
          (x ^ (0 * 2 ^ k + nat ((1 * 2 ^ k) div l)) mod n, (1 * 2 ^ k) mod l)"
    using assms by (intro prove_loop_inv) simp_all
  then show ?thesis using assms(1) by simp
qed

lemma prove_loop_mont_start:
  assumes "mont_inv m" "0 \<le> x" "1 < l"
  shows "prove_loop_mont m (toMontgomery m x) l k (toMontgomery m 1, 1) =
           (mrep m (x ^ nat (2 ^ k div l)), 2 ^ k mod l)"
proof -
  have "prove_loop_mont m (mrep m x) l k (mrep m (x ^ 0), 1) =
          (mrep m (x ^ (0 * 2 ^ k + nat ((1 * 2 ^ k) div l))), (1 * 2 ^ k) mod l)"
    using assms by (intro prove_loop_mont_inv) simp_all
  then show ?thesis using assms(1,2) by (simp add: toMontgomery_mrep)
qed

lemma prove_ok:
  assumes "1 < vdf_n output" "0 \<le> vdf_x output" "1 < l"
  shows "prove output l =
           Inr (vdf_x output ^ nat (2 ^ nat (vdf_t output) div l) mod vdf_n output)"
proof (cases "shouldUseMontgomery (vdf_n output) (vdf_t output)")
  case True
  then have "odd (vdf_n output)" by (rule shouldUseMontgomery_odd)
  from MontgomeryReducer_new_inv [OF this assms(1)]
  obtain m where m: "MontgomeryReducer_new (vdf_n output) = Inr m" "mont_inv m"
    "mont_n m = vdf_n output" by blast
  show ?thesis
    using True m prove_loop_mont_start [OF m(2) assms(2,3)]
    by (simp add: prove_def Let_def getMontgomeryReducer_def fromMontgomery_mrep)
next
  case False
  then show ?thesis
    using assms prove_loop_start [OF assms] by (simp add: prove_def Let_def)
qed

section \<open>Binary digit strings\<close>

lemma digitChar_bits: "digitChar 0 = CHR ''0''" "digitChar 1 = CHR ''1''"
  "digitChar (Suc 0) = CHR ''1''"
proof -
  show "digitChar 0 = CHR ''0''" by code_simp
  show 1: "digitChar 1 = CHR ''1''" by code_simp
  then show "digitChar (Suc 0) = CHR ''1''" by simp
qed

lemma bitsVal_snoc: "bitsVal (s @ [c]) = 2 * bitsVal s + (if c = CHR ''1'' then 1 else 0)"
  by (simp add: bitsVal_def)

lemma bitsVal_Nil: "bitsVal [] = 0"
  by (simp add: bitsVal_def)

lemma natToString2: "isBits (natToString 2 m) \<and> bitsVal (natToString 2 m) = m"
proof (induction m rule: less_induct)
  case (less m)
  show ?case
  proof (cases "m < 2")
    case True
    then have "m = 0 \<or> m = 1" by auto
    then show ?thesis
      by (subst (1 2) natToString.simps)
        (auto simp: isBits_def bitsVal_def digitChar_bits)
  next
    case False
    then have "m div 2 < m" by simp
    from less [OF this] have IH: "isBits (natToString 2 (m div 2))"
      "bitsVal (natToString 2 (m div 2)) = m div 2" by simp_all
    have e: "natToString 2 m = natToString 2 (m div 2) @ [digitChar (m mod 2)]"
      using False by (subst natToString.simps) simp
    have d: "m mod 2 = 0 \<or> m mod 2 = 1" by auto
    have c: "digitChar (m mod 2) = (if m mod 2 = 1 then CHR ''1'' else CHR ''0'')"
      using d by (auto simp: digitChar_bits)
    have "isBits (natToString 2 m)" using IH(1) by (auto simp: e c isBits_def)
    moreover have "bitsVal (natToString 2 m) = m"
    proof -
      have md: "2 * (m div 2) + m mod 2 = m" by simp
      have "bitsVal (natToString 2 m) = 2 * (m div 2) + (if m mod 2 = 1 then 1 else 0)"
        by (simp only: e bitsVal_snoc IH(2) c) simp
      also have "\<dots> = m"
      proof (cases "m mod 2 = 1")
        case True
        with md have "2 * (m div 2) + 1 = m" by linarith
        with True show ?thesis by simp
      next
        case False
        with d have z: "m mod 2 = 0" by simp
        with md have "2 * (m div 2) = m" by linarith
        with z show ?thesis by simp
      qed
      finally show ?thesis .
    qed
    ultimately show ?thesis by simp
  qed
qed

lemma toString2_bits:
  assumes "0 \<le> y"
  shows "isBits (toString y 2)" and "bitsVal (toString y 2) = nat y"
  using assms natToString2 [of "nat y"] by (simp_all add: toString_def)

lemma bitsVal_take_Suc:
  assumes "i < length bits"
  shows "bitsVal (take (Suc i) bits) = 2 * bitsVal (take i bits) + (if bits ! i = CHR ''1'' then 1 else 0)"
  using assms by (simp add: take_Suc_conv_app_nth bitsVal_snoc)

lemma windowValue_Suc:
  assumes "i \<le> j" "j < length bits"
  shows "windowValue bits i (Suc j) = 2 * windowValue bits i j + (if bits ! j = CHR ''1'' then 1 else 0)"
  using assms by (simp add: windowValue_def)

lemma windowValue_self: "windowValue bits i i = 0"
  by (simp add: windowValue_def)

lemma bitsVal_window:
  assumes "i \<le> j" "j \<le> length bits"
  shows "bitsVal (take j bits) = bitsVal (take i bits) * 2 ^ (j - i) + windowValue bits i j"
  using assms
proof (induction j)
  case 0
  then show ?case by (simp add: windowValue_self)
next
  case (Suc j)
  show ?case
  proof (cases "i = Suc j")
    case True
    then show ?thesis by (simp add: windowValue_self)
  next
    case False
    with Suc.prems have ij: "i \<le> j" "j < length bits" by simp_all
    then have IH: "bitsVal (take j bits) = bitsVal (take i bits) * 2 ^ (j - i) + windowValue bits i j"
      using Suc.IH by simp
    have "Suc j - i = Suc (j - i)" using ij by simp
    then show ?thesis
      by (simp add: bitsVal_take_Suc [OF ij(2)] windowValue_Suc [OF ij] IH algebra_simps)
  qed
qed

lemma windowValue_less:
  assumes "i \<le> j" "j \<le> length bits"
  shows "windowValue bits i j < 2 ^ (j - i)"
  using assms
proof (induction j)
  case 0
  then show ?case by (simp add: windowValue_self)
next
  case (Suc j)
  show ?case
  proof (cases "i = Suc j")
    case True
    then show ?thesis by (simp add: windowValue_self)
  next
    case False
    with Suc.prems have ij: "i \<le> j" "j < length bits" by simp_all
    then have IH: "windowValue bits i j < 2 ^ (j - i)" using Suc.IH by simp
    have "Suc j - i = Suc (j - i)" using ij by simp
    then show ?thesis using IH by (simp add: windowValue_Suc [OF ij])
  qed
qed

lemma windowValue_odd:
  assumes "i < j" "j \<le> length bits" "bits ! (j - 1) = CHR ''1''"
  shows "odd (windowValue bits i j)"
proof -
  obtain j' where j: "j = Suc j'" using assms(1) by (cases j) auto
  then have "i \<le> j'" "j' < length bits" using assms by simp_all
  from windowValue_Suc [OF this] assms(3) show ?thesis by (simp add: j)
qed

lemma trimWindow_props:
  assumes "i < j0" "j0 \<le> length bits" "bits ! i \<noteq> CHR ''0''"
  shows "i < trimWindow bits j0" and "trimWindow bits j0 \<le> j0"
    and "bits ! (trimWindow bits j0 - 1) \<noteq> CHR ''0''"
  using assms
proof (induction j0)
  case 0
  {
    case 1 then show ?case by simp
  next
    case 2 then show ?case by simp
  next
    case 3 then show ?case by simp
  }
next
  case (Suc j0)
  {
    case 1
    show ?case
    proof (cases "bits ! j0 = CHR ''0''")
      case True
      with 1 have "i < j0" by (cases "i = j0") auto
      with Suc.IH(1) 1 True show ?thesis by simp
    next
      case False
      with 1 show ?thesis by simp
    qed
  next
    case 2
    show ?case
    proof (cases "bits ! j0 = CHR ''0''")
      case True
      with 2 have "i < j0" by (cases "i = j0") auto
      with Suc.IH(2) 2 True show ?thesis by (simp add: le_SucI)
    next
      case False
      with 2 show ?thesis by simp
    qed
  next
    case 3
    show ?case
    proof (cases "bits ! j0 = CHR ''0''")
      case True
      with 3 have "i < j0" by (cases "i = j0") auto
      with Suc.IH(3) 3 True show ?thesis by simp
    next
      case False
      with 3 show ?thesis by simp
    qed
  }
qed

section \<open>The result monad\<close>

lemma bindR_returnR [simp]: "bindR (returnR v) f = f v"
  by (simp add: bindR_def returnR_def)

lemma bindR_raiseR [simp]: "bindR (raiseR e) f = raiseR e"
  by (simp add: bindR_def raiseR_def)

lemma bindR_None [simp]: "bindR None f = None"
  by (simp add: bindR_def)

lemma returnR_inject [simp]: "returnR a = returnR b \<longleftrightarrow> a = b"
  by (simp add: returnR_def)

lemma returnR_not_raiseR [simp]: "returnR a \<noteq> raiseR e" "raiseR e \<noteq> returnR a"
  "returnR a \<noteq> None" "raiseR e \<noteq> None"
  by (simp_all add: returnR_def raiseR_def)

lemma rem_bigint_pos: "0 \<le> a \<Longrightarrow> 0 < b \<Longrightarrow> rem_bigint a b = returnR (a mod b)"
  by (simp add: rem_bigint_def smod_nonneg)

section \<open>modpowClassic\<close>

lemma modpowClassic_loop_eq:
  assumes "0 < md"
  shows "0 \<le> y \<Longrightarrow> 0 \<le> x \<Longrightarrow> 0 \<le> res \<Longrightarrow> res < md \<Longrightarrow>
           modpowClassic_loop md res x y = (res * x ^ nat y) mod md"
proof (induction md res x y rule: modpowClassic_loop.induct)
  case (1 md res x y)
  show ?case
  proof (cases "y > 0")
    case False
    with 1 have "y = 0" by simp
    then show ?thesis using 1 by (subst modpowClassic_loop.simps) simp
  next
    case True
    define res' where "res' = (if y AND 1 \<noteq> 0 then (res * x) smod md else res)"
    define y' where "y' = drop_bit 1 y"
    define x' where "x' = (if y' > 0 then (x * x) smod md else x)"
    have md: "0 < md" using 1 by simp
    have y'div: "y' = y div 2" by (simp add: y'_def drop_bit_eq_div)
    have res'eq: "res' = (if odd y then (res * x) mod md else res)"
      using 1 md by (simp add: res'_def and_one_int smod_nonneg odd_iff_mod_2_eq_one)
    have x'eq: "x' = (if y' > 0 then (x * x) mod md else x)"
      using 1 md by (simp add: x'_def smod_nonneg)
    have r0: "0 \<le> res'" "res' < md" using 1 md by (auto simp: res'eq)
    have x0: "0 \<le> x'" using 1 md by (auto simp: x'eq)
    have y0: "0 \<le> y'" using True by (simp add: y'div)
    have step: "modpowClassic_loop md res x y = modpowClassic_loop md res' x' y'"
      using True by (subst modpowClassic_loop.simps) (simp add: Let_def res'_def y'_def x'_def)
    have IH: "modpowClassic_loop md res' x' y' = (res' * x' ^ nat y') mod md"
      using "1.IH" [OF True res'_def y'_def x'_def y0 x0 r0] .
    have ydec: "nat y = 2 * nat y' + (if odd y then 1 else 0)"
    proof -
      have "y = 2 * (y div 2) + y mod 2" by simp
      also have "y mod 2 = (if odd y then 1 else 0)" by (simp add: odd_iff_mod_2_eq_one)
      finally have "y = 2 * y' + (if odd y then 1 else 0)" by (simp add: y'div)
      then have "nat y = nat (2 * y' + (if odd y then 1 else 0))" by simp
      also have "\<dots> = 2 * nat y' + (if odd y then 1 else 0)" using y0 by (simp add: nat_add_distrib nat_mult_distrib)
      finally show ?thesis .
    qed
    have pw: "(x' ^ nat y') mod md = (x ^ (2 * nat y')) mod md"
    proof (cases "y' > 0")
      case True
      then have "x' ^ nat y' mod md = ((x * x) mod md) ^ nat y' mod md" by (simp add: x'eq)
      also have "\<dots> = (x * x) ^ nat y' mod md" by (simp add: power_mod)
      also have "(x * x) ^ nat y' = x ^ (2 * nat y')"
        by (simp add: power_mult power2_eq_square)
      finally show ?thesis .
    next
      case False
      with y0 have "y' = 0" by simp
      then show ?thesis by simp
    qed
    have "(res' * x' ^ nat y') mod md = (res' * (x' ^ nat y' mod md)) mod md"
      by (simp add: mod_mult_right_eq)
    also have "\<dots> = (res' * x ^ (2 * nat y')) mod md"
      by (simp only: pw mod_mult_right_eq)
    also have "\<dots> = (res * x ^ nat y) mod md"
    proof (cases "odd y")
      case True
      have "(res' * x ^ (2 * nat y')) mod md = (((res * x) mod md) * x ^ (2 * nat y')) mod md"
        using True by (simp add: res'eq)
      also have "\<dots> = ((res * x) * x ^ (2 * nat y')) mod md" by (simp add: mod_mult_left_eq)
      also have "(res * x) * x ^ (2 * nat y') = res * x ^ nat y"
        using True by (simp add: ydec)
      finally show ?thesis .
    next
      case False
      then show ?thesis by (simp add: res'eq ydec)
    qed
    finally show ?thesis using step IH by simp
  qed
qed

lemma modpowClassic_eq:
  assumes "1 < p" "0 \<le> y" "0 \<le> base"
  shows "modpowClassic base y p = base ^ nat y mod p"
  using modpowClassic_loop_eq [of p y base 1] assms by (simp add: modpowClassic_def)

section \<open>The window table\<close>

lemma table_loop_inv:
  fixes P :: "nat \<Rightarrow> int"
  assumes mul: "\<And>a b. mul (P a) (P b) = P (a + b)" and b2: "base2 = P 2"
  shows "odd i \<Longrightarrow> 3 \<le> i \<Longrightarrow> (\<forall>w. odd w \<and> w < i \<longrightarrow> table w = Some (P w)) \<Longrightarrow>
           \<exists>table'. table_loop mul base2 tableSize i table = Inr table' \<and>
                    (\<forall>w. odd w \<and> w < max i tableSize \<longrightarrow> table' w = Some (P w))"
proof (induction "tableSize - i" arbitrary: i table rule: less_induct)
  case less
  show ?case
  proof (cases "i < tableSize")
    case False
    then have "table_loop mul base2 tableSize i table = Inr table"
      by (subst table_loop.simps) simp
    moreover have "max i tableSize = i" using False by simp
    ultimately show ?thesis using less.prems(3) by simp
  next
    case True
    have "odd (i - 2)" "i - 2 < i" using less.prems(1,2) by simp_all
    then have prev: "table (i - 2) = Some (P (i - 2))" using less.prems(3) by blast
    have "i - 2 + 2 = i" using less.prems(2) by simp
    with mul [of "i - 2" 2] have new: "mul (P (i - 2)) base2 = P i" by (simp only: b2)
    let ?t = "table(i \<mapsto> mul (P (i - 2)) base2)"
    have inv: "\<forall>w. odd w \<and> w < i + 2 \<longrightarrow> ?t w = Some (P w)"
    proof (intro allI impI)
      fix w assume w: "odd w \<and> w < i + 2"
      show "?t w = Some (P w)"
      proof (cases "w = i")
        case True
        then show ?thesis by (simp add: new)
      next
        case False
        have "w \<noteq> i + 1" using w less.prems(1) by auto
        with w False have "w < i" by simp
        with w have "table w = Some (P w)" using less.prems(3) by blast
        with False show ?thesis by simp
      qed
    qed
    have dec: "tableSize - (i + 2) < tableSize - i" using True by simp
    have o2: "odd (i + 2)" "3 \<le> i + 2" using less.prems(1,2) by simp_all
    have "\<exists>table'. table_loop mul base2 tableSize (i + 2) ?t = Inr table' \<and>
                    (\<forall>w. odd w \<and> w < max (i + 2) tableSize \<longrightarrow> table' w = Some (P w))"
      by (rule less.hyps [OF dec o2 inv])
    moreover have "table_loop mul base2 tableSize i table = table_loop mul base2 tableSize (i + 2) ?t"
      using True prev by (subst table_loop.simps) simp
    moreover have "max i tableSize \<le> max (i + 2) tableSize" by simp
    ultimately show ?thesis by (metis less_le_trans)
  qed
qed

lemma buildTable_ok:
  fixes P :: "nat \<Rightarrow> int"
  assumes mul: "\<And>a b. mul (P a) (P b) = P (a + b)" and sq: "\<And>a. sq (P a) = P (2 * a)"
    and "1 \<le> window"
  shows "\<exists>table. buildTable (P 1) window sq mul = Inr table \<and>
                 (\<forall>w. odd w \<and> w < 2 ^ window \<longrightarrow> table w = Some (P w))"
proof (cases "(2::nat) ^ window > 2")
  case False
  have "(2::nat) ^ 1 \<le> 2 ^ window" using assms(3) by (intro power_increasing) simp_all
  with False have two: "(2::nat) ^ window = 2" by simp
  have "\<And>w::nat. odd w \<Longrightarrow> w < 2 \<Longrightarrow> w = 1" by presburger
  then show ?thesis using False two by (auto simp: buildTable_def Let_def)
next
  case True
  let ?t = "Map.empty(1 \<mapsto> P 1) :: nat \<rightharpoonup> int"
  have init: "\<forall>w. odd w \<and> w < 3 \<longrightarrow> ?t w = Some (P w)"
  proof (intro allI impI)
    fix w :: nat assume "odd w \<and> w < 3"
    then have "w = 1" by presburger
    then show "?t w = Some (P w)" by simp
  qed
  have b2: "sq (P 1) = P 2" using sq [of 1] by simp
  from table_loop_inv [of mul P "sq (P 1)" 3 ?t "2 ^ window", OF mul b2 _ _ init]
  obtain table' where t: "table_loop mul (sq (P 1)) (2 ^ window) 3 ?t = Inr table'"
    "\<forall>w. odd w \<and> w < max 3 (2 ^ window) \<longrightarrow> table' w = Some (P w)" by auto
  then show ?thesis using True by (auto simp: buildTable_def Let_def)
qed

section \<open>The sliding window loop\<close>

lemma funpow_sq:
  fixes P :: "nat \<Rightarrow> int"
  assumes sq: "\<And>a. sq (P a) = P (2 * a)"
  shows "(sq ^^ k) (P v) = P (v * 2 ^ k)"
proof (induction k)
  case 0
  then show ?case by simp
next
  case (Suc k)
  have "(sq ^^ Suc k) (P v) = sq ((sq ^^ k) (P v))" by simp
  also have "\<dots> = sq (P (v * 2 ^ k))" by (simp only: Suc.IH)
  also have "\<dots> = P (2 * (v * 2 ^ k))" by (rule sq)
  also have "2 * (v * 2 ^ k) = v * 2 ^ Suc k" by simp
  finally show ?case .
qed

lemma window_loop_inv:
  fixes P :: "nat \<Rightarrow> int"
  assumes mul: "\<And>a b. mul (P a) (P b) = P (a + b)" and sq: "\<And>a. sq (P a) = P (2 * a)"
    and win: "1 \<le> window" and bits: "isBits bits"
    and table: "\<forall>w. odd w \<and> w < 2 ^ window \<longrightarrow> table w = Some (P w)"
  shows "i \<le> length bits \<Longrightarrow>
           window_loop bits window sq mul table i (P (bitsVal (take i bits))) =
             returnR (P (bitsVal bits))"
proof (induction "length bits - i" arbitrary: i rule: less_induct)
  case less
  show ?case
  proof (cases "i < length bits")
    case False
    with less.prems have "i = length bits" by simp
    then show ?thesis by (subst window_loop.simps) simp
  next
    case True
    have bi: "bits ! i = CHR ''0'' \<or> bits ! i = CHR ''1''"
      using bits True by (auto simp: isBits_def dest: nth_mem)
    show ?thesis
    proof (cases "bits ! i = CHR ''0''")
      case zero: True
      have v: "bitsVal (take (i + 1) bits) = 2 * bitsVal (take i bits)"
        using bitsVal_take_Suc [OF True] zero by simp
      have "window_loop bits window sq mul table i (P (bitsVal (take i bits))) =
              window_loop bits window sq mul table (i + 1) (sq (P (bitsVal (take i bits))))"
        using True zero by (subst window_loop.simps) simp
      also have "sq (P (bitsVal (take i bits))) = P (bitsVal (take (i + 1) bits))"
        by (simp only: sq v)
      also have "window_loop bits window sq mul table (i + 1) (P (bitsVal (take (i + 1) bits))) =
                   returnR (P (bitsVal bits))"
        using True by (intro less.hyps) simp_all
      finally show ?thesis .
    next
      case one: False
      define j0 where "j0 = min (i + window) (length bits)"
      define j where "j = trimWindow bits j0"
      define w where "w = windowValue bits i j"
      have j0: "i < j0" "j0 \<le> length bits" "j0 \<le> i + window"
        using True win by (simp_all add: j0_def)
      note tp = trimWindow_props [OF j0(1,2) one, folded j_def]
      have jl: "j \<le> length bits" using tp(2) j0(2) by simp
      have jm: "j - 1 < length bits" using tp(1) jl by simp
      have "bits ! (j - 1) = CHR ''0'' \<or> bits ! (j - 1) = CHR ''1''"
        using bits jm by (auto simp: isBits_def dest: nth_mem)
      with tp(3) have last: "bits ! (j - 1) = CHR ''1''" by simp
      have wodd: "odd w" unfolding w_def using tp(1) jl last by (rule windowValue_odd)
      have "w < 2 ^ (j - i)" unfolding w_def using tp(1) jl by (intro windowValue_less) simp_all
      also have "(2::nat) ^ (j - i) \<le> 2 ^ window"
        using tp(2) j0(3) by (intro power_increasing) simp_all
      finally have wlt: "w < 2 ^ window" .
      from table wodd wlt have tw: "table w = Some (P w)" by blast
      have v: "bitsVal (take j bits) = bitsVal (take i bits) * 2 ^ (j - i) + w"
        unfolding w_def using tp(1) jl by (intro bitsVal_window) simp_all
      have res: "mul ((sq ^^ (j - i)) (P (bitsVal (take i bits)))) (P w) = P (bitsVal (take j bits))"
        by (simp only: funpow_sq [of sq P, OF sq] mul v)
      have "window_loop bits window sq mul table i (P (bitsVal (take i bits))) =
              window_loop bits window sq mul table j
                (mul ((sq ^^ (j - i)) (P (bitsVal (take i bits)))) (P w))"
        using True one tw
        by (subst window_loop.simps)
          (simp add: Let_def j0_def [symmetric] j_def [symmetric] w_def [symmetric])
      also have "\<dots> = window_loop bits window sq mul table j (P (bitsVal (take j bits)))"
        by (simp only: res)
      also have "\<dots> = returnR (P (bitsVal bits))"
        using tp(1) jl True by (intro less.hyps) simp_all
      finally show ?thesis .
    qed
  qed
qed

lemma modpowWindowedCore_eq:
  fixes P :: "nat \<Rightarrow> int"
  assumes mul: "\<And>a b. mul (P a) (P b) = P (a + b)" and sq: "\<And>a. sq (P a) = P (2 * a)"
    and win: "1 \<le> window" and bits: "isBits bits"
  shows "modpowWindowedCore (P 1) bits window sq mul (P 0) = returnR (P (bitsVal bits))"
proof -
  from buildTable_ok [of mul P sq window, OF mul sq win]
  obtain table where t: "buildTable (P 1) window sq mul = Inr table"
    "\<forall>w. odd w \<and> w < 2 ^ window \<longrightarrow> table w = Some (P w)" by blast
  have "window_loop bits window sq mul table 0 (P (bitsVal (take 0 bits))) =
          returnR (P (bitsVal bits))"
    by (rule window_loop_inv [of mul P sq window bits table 0, OF mul sq win bits t(2)]) simp
  then show ?thesis unfolding modpowWindowedCore_def t(1) by (simp add: bitsVal_Nil)
qed

section \<open>modpow\<close>

lemma selectWindowSize_pos: "1 \<le> selectWindowSize e"
  by (simp add: selectWindowSize_def)

lemma modpow_plain_window:
  assumes "1 < p" "0 \<le> y" "0 \<le> base" "base < p" "1 \<le> window"
  shows "modpowWindowedCore base (toString y 2) window
           (\<lambda>a. (a * a) smod p) (\<lambda>a b. (a * b) smod p) 1 = returnR (base ^ nat y mod p)"
proof -
  define P where "P k = base ^ k mod p" for k :: nat
  have nn: "\<And>k. 0 \<le> P k" using assms(1) by (simp add: P_def)
  have mul: "(P a * P b) smod p = P (a + b)" for a b
  proof -
    have "(P a * P b) smod p = (P a * P b) mod p" using nn assms(1) by (intro smod_nonneg) simp_all
    also have "\<dots> = (base ^ a * base ^ b) mod p" by (simp add: P_def mod_mult_eq)
    finally show ?thesis by (simp add: P_def power_add)
  qed
  have sq: "(P a * P a) smod p = P (2 * a)" for a using mul [of a a] by (simp add: mult_2)
  have P1: "P 1 = base" using assms by (simp add: P_def)
  have P0: "P 0 = 1" using assms by (simp add: P_def)
  note core = modpowWindowedCore_eq [of "\<lambda>a b. (a * b) smod p" P "\<lambda>a. (a * a) smod p" window "toString y 2",
      OF mul sq assms(5) toString2_bits(1) [OF assms(2)]]
  have "P (bitsVal (toString y 2)) = base ^ nat y mod p"
    by (simp add: P_def toString2_bits(2) [OF assms(2)])
  with core show ?thesis by (simp only: P1 P0)
qed

lemma modpow_mont_window:
  assumes inv: "mont_inv m" and "0 \<le> y" "0 \<le> base" "1 \<le> window"
  shows "bindR (modpowWindowedCore (toMontgomery m base) (toString y 2) window
                  (\<lambda>a. square m a) (\<lambda>a b. multiply m a b) (toMontgomery m 1))
               (\<lambda>resultMont. returnR (fromMontgomery m resultMont)) =
           returnR (base ^ nat y mod mont_n m)"
proof -
  define P where "P k = mrep m (base ^ k)" for k :: nat
  have mul: "multiply m (P a) (P b) = P (a + b)" for a b
    using inv by (simp add: P_def multiply_mrep power_add)
  have sq: "square m (P a) = P (2 * a)" for a
    using inv by (simp add: P_def square_mrep power_add mult_2)
  have P1: "P 1 = toMontgomery m base" using inv assms(3) by (simp add: P_def toMontgomery_mrep)
  have P0: "P 0 = toMontgomery m 1" using inv by (simp add: P_def toMontgomery_mrep)
  note core = modpowWindowedCore_eq [of "\<lambda>a b. multiply m a b" P "\<lambda>a. square m a" window "toString y 2",
      OF mul sq assms(4) toString2_bits(1) [OF assms(2)]]
  have "P (bitsVal (toString y 2)) = mrep m (base ^ nat y)"
    by (simp add: P_def toString2_bits(2) [OF assms(2)])
  with core have "modpowWindowedCore (toMontgomery m base) (toString y 2) window
                  (\<lambda>a. square m a) (\<lambda>a b. multiply m a b) (toMontgomery m 1) =
          returnR (mrep m (base ^ nat y))"
    by (simp only: P1 P0)
  then show ?thesis using inv by (simp add: fromMontgomery_mrep)
qed

lemma modpow_eq:
  assumes "0 \<le> x" "0 \<le> y" "1 \<le> p"
  shows "modpow x y p = returnR (x ^ nat y mod p)"
proof (cases "p = 1")
  case True
  then show ?thesis by (simp add: modpow_def)
next
  case False
  with assms have p: "1 < p" by simp
  define base where "base = x mod p"
  have b: "0 \<le> base" "base < p" using p by (simp_all add: base_def)
  have rb: "rem_bigint x p = returnR base"
    using assms p by (simp add: rem_bigint_pos base_def)
  have pw: "base ^ k mod p = x ^ k mod p" for k by (simp add: base_def power_mod)
  consider "y = 0" | "y = 1" | "y = 2" | "y \<noteq> 0" "y \<noteq> 1" "y \<noteq> 2" by blast
  then show ?thesis
  proof cases
    case 1
    then show ?thesis using p by (simp add: modpow_def rem_bigint_pos)
  next
    case 2
    then show ?thesis using p assms by (simp add: modpow_def rem_bigint_pos)
  next
    case 3
    have "rem_bigint (base * base) p = returnR ((base * base) mod p)"
      using b p by (intro rem_bigint_pos) simp_all
    also have "(base * base) mod p = x ^ nat 2 mod p"
      by (simp add: base_def mod_mult_eq power2_eq_square)
    finally show ?thesis using 3 p by (simp add: modpow_def rb)
  next
    case 4
    let ?e = "bigintBitLength y"
    show ?thesis
    proof (cases "?e \<le> MODPOW_WINDOW_THRESHOLD_BITS")
      case True
      have "modpowClassic base y p = x ^ nat y mod p"
        using modpowClassic_eq [OF p assms(2) b(1)] by (simp add: pw)
      then show ?thesis using 4 False True by (simp add: modpow_def rb Let_def)
    next
      case wnd: False
      show ?thesis
      proof (cases "shouldUseMontgomeryForModpow p ?e")
        case True
        then have "odd p" by (rule shouldUseMontgomeryForModpow_odd)
        from MontgomeryReducer_new_inv [OF this p]
        obtain m where m: "MontgomeryReducer_new p = Inr m" "mont_inv m" "mont_n m = p" by blast
        from modpow_mont_window [OF m(2) assms(2) b(1) selectWindowSize_pos [of ?e]]
        show ?thesis
          using 4 False wnd True m(1)
          by (simp add: modpow_def rb Let_def getMontgomeryReducerCached_def m(3) pw)
      next
        case plain: False
        from modpow_plain_window [OF p assms(2) b selectWindowSize_pos [of ?e]]
        show ?thesis
          using 4 False wnd plain by (simp add: modpow_def rb Let_def pw)
      qed
    qed
  qed
qed

section \<open>The small primes\<close>

lemma sieve_loop_range:
  "2 \<le> i \<Longrightarrow> (\<forall>p \<in> set primes. 2 \<le> p \<and> p \<le> int limit) \<Longrightarrow>
     \<forall>p \<in> set (sieve_loop limit i sieve primes). 2 \<le> p \<and> p \<le> int limit"
proof (induction "Suc limit - i" arbitrary: i sieve primes rule: less_induct)
  case less
  show ?case
  proof (cases "i \<le> limit")
    case False
    then show ?thesis using less.prems(2) by (subst sieve_loop.simps) simp
  next
    case True
    have dec: "Suc limit - (i + 1) < Suc limit - i" using True by simp
    have i2: "2 \<le> i + 1" using less.prems(1) by simp
    show ?thesis
    proof (cases "sieve ! i = 0")
      case marked: False
      have "sieve_loop limit i sieve primes = sieve_loop limit (i + 1) sieve primes"
        using True marked by (subst sieve_loop.simps) simp
      then show ?thesis using less.hyps [OF dec i2 less.prems(2)] by simp
    next
      case unmarked: True
      have new: "\<forall>p \<in> set (primes @ [int i]). 2 \<le> p \<and> p \<le> int limit"
        using less.prems True by auto
      have "sieve_loop limit i sieve primes =
              sieve_loop limit (i + 1) (sieve_mark limit i (i * i) sieve) (primes @ [int i])"
        using True unmarked by (subst sieve_loop.simps) simp
      then show ?thesis using less.hyps [OF dec i2 new] by simp
    qed
  qed
qed

lemma SMALL_PRIMES_range: "p \<in> set SMALL_PRIMES \<Longrightarrow> 2 \<le> p \<and> p \<le> 1000"
  using sieve_loop_range [of 2 "[]" 1000 "replicate 1001 0"] by (simp add: SMALL_PRIMES_def)

section \<open>Trial division\<close>

lemma trialDivision_None:
  "(\<forall>p \<in> set ps. n \<noteq> p \<and> n smod p \<noteq> 0) \<Longrightarrow> trialDivision n ps = None"
  by (induction ps) simp_all

lemma trialDivision_mem:
  "(\<forall>p \<in> set ps. n = p \<or> n smod p \<noteq> 0) \<Longrightarrow> n \<in> set ps \<Longrightarrow> trialDivision n ps = Some True"
  by (induction ps) auto

lemma smod_dvd: "0 \<le> n \<Longrightarrow> 0 < p \<Longrightarrow> n smod p = 0 \<longleftrightarrow> p dvd (n::int)"
  by (simp add: smod_nonneg dvd_eq_mod_eq_0)

section \<open>The decomposition of n - 1\<close>

lemma decompose_terminates:
  "0 < d \<Longrightarrow> \<exists>d' s'. decompose d s = Some (d', s') \<and> odd d' \<and> 0 < d' \<and> s \<le> s' \<and> d = d' * 2 ^ (s' - s)"
proof (induction "nat d" arbitrary: d s rule: less_induct)
  case less
  show ?case
  proof (cases "odd d")
    case True
    then have "decompose d s = Some (d, s)"
      by (subst decompose.simps) (simp add: and_one_int odd_iff_mod_2_eq_one)
    then show ?thesis using True less.prems by simp
  next
    case False
    then have ev: "even d" by simp
    define h where "h = d div 2"
    have h: "0 < h" "nat h < nat d" "d = 2 * h" using less.prems ev by (auto simp: h_def)
    from less.hyps [OF h(2) h(1), of "s + 1"]
    obtain d' s' where r: "decompose h (s + 1) = Some (d', s')" "odd d'" "0 < d'" "s + 1 \<le> s'"
      "h = d' * 2 ^ (s' - (s + 1))" by blast
    have "decompose d s = decompose h (s + 1)"
      using ev by (subst decompose.simps) (simp add: and_one_int drop_bit_eq_div h_def)
    moreover have "d = d' * 2 ^ (s' - s)"
    proof -
      have "s' - s = Suc (s' - (s + 1))" using r(4) by simp
      then show ?thesis using h(3) r(5) by simp
    qed
    ultimately show ?thesis using r by auto
  qed
qed

section \<open>Miller-Rabin always returns\<close>

lemma millerRabinRound_returns:
  assumes "0 \<le> a" "0 \<le> d" "1 \<le> n"
  shows "millerRabinRound n d s a =
           returnR (let x = a ^ nat d mod n in
                    if x = 1 \<or> x = n - 1 then True else millerRabin_loop n (s - 1) x)"
  using assms by (simp add: millerRabinRound_def modpow_eq Let_def)

lemma deterministic_loop_returns:
  assumes "0 \<le> d" "1 \<le> n" "\<forall>a \<in> set as. 0 \<le> a"
  shows "\<exists>b. deterministic_loop n d s as = returnR b"
  using assms(3)
proof (induction as)
  case Nil
  show ?case by (simp add: exI [of _ True])
next
  case (Cons a as)
  then obtain b where b: "deterministic_loop n d s as = returnR b" by auto
  have a: "0 \<le> a" using Cons.prems by simp
  show ?case
    using assms(1,2) a b by (simp add: millerRabinRound_returns exI [of _ True] exI [of _ False])
qed

lemma witness_bytes_nonneg: "0 \<le> r \<Longrightarrow> 0 \<le> witness_bytes rand off nBytes j r"
proof (induction "nBytes - j" arbitrary: j r rule: less_induct)
  case less
  show ?case
  proof (cases "j < nBytes")
    case False
    then show ?thesis using less.prems by (subst witness_bytes.simps) simp
  next
    case True
    have "0 \<le> push_bit 8 r + uint (rand ! (off + j))"
      using less.prems by (simp add: push_bit_eq_mult)
    moreover have "nBytes - (j + 1) < nBytes - j" using True by simp
    ultimately have "0 \<le> witness_bytes rand off nBytes (j + 1) (push_bit 8 r + uint (rand ! (off + j)))"
      by (rule less.hyps [rotated])
    then show ?thesis using True by (subst witness_bytes.simps) simp
  qed
qed

lemma random_witness_range:
  fixes n r :: int
  assumes "5 \<le> n" "0 \<le> r"
  shows "2 \<le> 2 + r smod (n - 4)" and "2 + r smod (n - 4) \<le> n - 3"
proof -
  have "r smod (n - 4) = r mod (n - 4)" using assms by (intro smod_nonneg) simp_all
  moreover have "0 \<le> r mod (n - 4)" "r mod (n - 4) < n - 4" using assms by simp_all
  ultimately show "2 \<le> 2 + r smod (n - 4)" and "2 + r smod (n - 4) \<le> n - 3" by simp_all
qed

lemma random_loop_returns:
  assumes "0 \<le> d" "5 \<le> n"
  shows "\<exists>b. random_loop n d s rand nBytes k i = returnR b"
proof (induction "k - i" arbitrary: i rule: less_induct)
  case less
  show ?case
  proof (cases "i < k")
    case False
    then show ?thesis by (subst random_loop.simps) (simp add: exI [of _ True])
  next
    case True
    define a where "a = 2 + witness_bytes rand (i * nBytes) nBytes 0 0 smod (n - 4)"
    have a: "0 \<le> a"
      using random_witness_range(1) [OF assms(2) witness_bytes_nonneg [of 0 rand "i * nBytes" nBytes 0]]
      by (simp add: a_def)
    have mr: "\<exists>b. millerRabinRound n d s a = returnR b"
      using millerRabinRound_returns [OF a assms(1), of n s] assms(2) by simp
    have "k - (i + 1) < k - i" using True by simp
    from less.hyps [OF this] obtain b' where b': "random_loop n d s rand nBytes k (i + 1) = returnR b'"
      by blast
    from mr obtain b where b: "millerRabinRound n d s a = returnR b" by blast
    show ?thesis
      using True b b'
      by (subst random_loop.simps)
        (simp add: Let_def a_def [symmetric] exI [of _ True] exI [of _ False])
  qed
qed

lemma isPrime_outcome:
  "(\<exists>b g'. isPrime n k g = returnR (b, g')) \<or>
   (isPrime n k g = raiseR QuotaExceededError \<and> 65536 < bigintByteLength n * k)"
proof -
  consider "n < 2" | "n = 2 \<or> n = 3" | "2 \<le> n" "n \<noteq> 2" "n \<noteq> 3" "n AND 1 = 0"
    | b where "2 \<le> n" "n \<noteq> 2" "n \<noteq> 3" "n AND 1 \<noteq> 0" "trialDivision n SMALL_PRIMES = Some b"
    | "2 \<le> n" "n \<noteq> 2" "n \<noteq> 3" "n AND 1 \<noteq> 0" "trialDivision n SMALL_PRIMES = None"
    by (cases "trialDivision n SMALL_PRIMES") fastforce+
  then show ?thesis
  proof cases
    case 1
    then have "isPrime n k g = returnR (False, g)" by (simp add: isPrime_def)
    then show ?thesis by blast
  next
    case 2
    then have "isPrime n k g = returnR (True, g)" by (auto simp: isPrime_def)
    then show ?thesis by blast
  next
    case 3
    then have "isPrime n k g = returnR (False, g)" by (simp add: isPrime_def)
    then show ?thesis by blast
  next
    case 4
    then have "isPrime n k g = returnR (b, g)" by (simp add: isPrime_def)
    then show ?thesis by blast
  next
    case 5
    have odd: "odd n" using 5(4) by (simp add: and_one_int odd_iff_mod_2_eq_one)
    with 5 have n5: "5 \<le> n" by presburger
    from decompose_terminates [of "n - 1" 0] n5
    obtain d s where ds: "decompose (n - 1) 0 = Some (d, s)" "0 < d" by auto
    show ?thesis
    proof (cases "n < 318665857834031151167461")
      case True
      have "\<forall>a \<in> set DETERMINISTIC_WITNESSES. 0 \<le> a" by (simp add: DETERMINISTIC_WITNESSES_def)
      from deterministic_loop_returns [OF _ _ this, of d n s] ds(2) n5
      obtain b where "deterministic_loop n d s DETERMINISTIC_WITNESSES = returnR b" by auto
      then have "isPrime n k g = returnR (b, g)" using 5 ds(1) True by (simp add: isPrime_def)
      then show ?thesis by blast
    next
      case False
      show ?thesis
      proof (cases "65536 < bigintByteLength n * k")
        case quota: True
        then have "getRandomValues (bigintByteLength n * k) g = Inl QuotaExceededError"
          by (simp add: getRandomValues_def)
        then have "isPrime n k g = raiseR QuotaExceededError"
          using 5 ds(1) False by (simp add: isPrime_def Let_def)
        with quota show ?thesis by blast
      next
        case False
        define rand where "rand = map g [0..<bigintByteLength n * k]"
        define g' where "g' = (\<lambda>i. g (i + bigintByteLength n * k))"
        have rg: "getRandomValues (bigintByteLength n * k) g = Inr (rand, g')"
          using False by (simp add: getRandomValues_def rand_def g'_def)
        from random_loop_returns [of d n s rand "bigintByteLength n" k 0] ds(2) n5
        obtain b where "random_loop n d s rand (bigintByteLength n) k 0 = returnR b" by auto
        then have "isPrime n k g = returnR (b, g')"
          using 5 ds(1) \<open>\<not> n < 318665857834031151167461\<close> rg
          by (simp add: isPrime_def Let_def)
        then show ?thesis by blast
      qed
    qed
  qed
qed

lemma isPrime_returns:
  "bigintByteLength n * k \<le> 65536 \<Longrightarrow> \<exists>b g'. isPrime n k g = returnR (b, g')"
  using isPrime_outcome [of n k g] by auto

section \<open>Primes and small factors\<close>

lemma prime_factor: "2 \<le> m \<Longrightarrow> \<exists>p. prime_nat p \<and> p dvd m"
proof (induction m rule: less_induct)
  case (less m)
  show ?case
  proof (cases "prime_nat m")
    case True
    then show ?thesis by auto
  next
    case False
    with less.prems obtain d where d: "d dvd m" "d \<noteq> 1" "d \<noteq> m"
      by (auto simp: prime_nat_def)
    have "d \<noteq> 0" using d(1) less.prems by (cases "d = 0") simp_all
    with d have d2: "2 \<le> d" by simp
    have "d \<le> m" using d(1) less.prems by (intro dvd_imp_le) simp_all
    with d(3) have "d < m" by simp
    from less.IH [OF this d2] obtain p where "prime_nat p" "p dvd d" by blast
    with d(1) show ?thesis by (meson dvd_trans)
  qed
qed

lemma no_small_factor:
  assumes "\<forall>p. prime_nat p \<and> p \<le> 1000 \<longrightarrow> \<not> int p dvd n" and "q \<in> set SMALL_PRIMES"
  shows "\<not> q dvd n"
proof
  assume qn: "q dvd n"
  from SMALL_PRIMES_range [OF assms(2)] have q: "2 \<le> q" "q \<le> 1000" by simp_all
  then have "2 \<le> nat q" by simp
  from prime_factor [OF this] obtain p where p: "prime_nat p" "p dvd nat q" by blast
  have "p \<le> nat q" using p(2) q by (intro dvd_imp_le) simp_all
  then have "p \<le> 1000" using q by simp
  moreover have "int p dvd q" using p(2) q by (metis int_dvd_int_iff int_nat_eq order_trans zero_le_numeral)
  then have "int p dvd n" using qn by (rule dvd_trans)
  ultimately show False using assms(1) p(1) by blast
qed

lemma isPrime_no_rounds:
  assumes "odd n" "318665857834031151167461 \<le> n"
    "\<forall>p. prime_nat p \<and> p \<le> 1000 \<longrightarrow> \<not> int p dvd n"
  shows "isPrime n 0 g = returnR (True, g)"
proof -
  have n: "\<not> n < 2" "n \<noteq> 2" "n \<noteq> 3" "\<not> n < 318665857834031151167461" using assms(2) by simp_all
  have odd: "n AND 1 \<noteq> 0" using assms(1) by (simp add: and_one_int odd_iff_mod_2_eq_one)
  have "\<forall>p \<in> set SMALL_PRIMES. n \<noteq> p \<and> n smod p \<noteq> 0"
  proof
    fix p assume p: "p \<in> set SMALL_PRIMES"
    from no_small_factor [OF assms(3) p] have nd: "\<not> p dvd n" .
    from SMALL_PRIMES_range [OF p] have "0 < p" by simp
    with nd assms(2) have "n smod p \<noteq> 0" by (simp add: smod_dvd)
    moreover have "n \<noteq> p" using nd by auto
    ultimately show "n \<noteq> p \<and> n smod p \<noteq> 0" by simp
  qed
  then have td: "trialDivision n SMALL_PRIMES = None" by (rule trialDivision_None)
  from decompose_terminates [of "n - 1" 0] assms(2)
  obtain d s where ds: "decompose (n - 1) 0 = Some (d, s)" by auto
  have r: "random_loop n d s [] (bigintByteLength n) 0 0 = returnR True"
    by (subst random_loop.simps) simp
  show ?thesis
    using n odd td ds r by (simp add: isPrime_def getRandomValues_def)
qed

text \<open>Past trial division and above the deterministic bound, a request beyond the quota
  of the random source makes \<open>isPrime\<close> raise.\<close>

lemma isPrime_quota:
  assumes "odd n" "318665857834031151167461 \<le> n"
    "\<forall>p. prime_nat p \<and> p \<le> 1000 \<longrightarrow> \<not> int p dvd n"
    "65536 < bigintByteLength n * k"
  shows "isPrime n k g = raiseR QuotaExceededError"
proof -
  have n: "\<not> n < 2" "n \<noteq> 2" "n \<noteq> 3" "\<not> n < 318665857834031151167461" using assms(2) by simp_all
  have odd: "n AND 1 \<noteq> 0" using assms(1) by (simp add: and_one_int odd_iff_mod_2_eq_one)
  have "\<forall>p \<in> set SMALL_PRIMES. n \<noteq> p \<and> n smod p \<noteq> 0"
  proof
    fix p assume p: "p \<in> set SMALL_PRIMES"
    from no_small_factor [OF assms(3) p] have nd: "\<not> p dvd n" .
    from SMALL_PRIMES_range [OF p] have "0 < p" by simp
    with nd assms(2) have "n smod p \<noteq> 0" by (simp add: smod_dvd)
    moreover have "n \<noteq> p" using nd by auto
    ultimately show "n \<noteq> p \<and> n smod p \<noteq> 0" by simp
  qed
  then have td: "trialDivision n SMALL_PRIMES = None" by (rule trialDivision_None)
  from decompose_terminates [of "n - 1" 0] assms(2)
  obtain d s where ds: "decompose (n - 1) 0 = Some (d, s)" by auto
  have "getRandomValues (bigintByteLength n * k) g = Inl QuotaExceededError"
    using assms(4) by (simp add: getRandomValues_def)
  then show ?thesis
    using n odd td ds by (simp add: isPrime_def Let_def)
qed

lemma verify_eq:
  assumes "0 \<le> vdf_t prf" and "bigintByteLength (vdf_l prf) * 32 \<le> 65536"
  shows "\<exists>b g'. verify prf g = returnR (b, g') \<and>
           (b \<longleftrightarrow> 0 < vdf_pi prf \<and> vdf_pi prf < vdf_n prf \<and>
                  0 < vdf_x prf \<and> vdf_x prf < vdf_n prf \<and> gcd (vdf_x prf) (vdf_n prf) = 1 \<and>
                  2 < vdf_l prf \<and> (\<exists>g''. isPrime (vdf_l prf) 32 g = returnR (True, g'')) \<and>
                  ((vdf_pi prf ^ nat (vdf_l prf) mod vdf_n prf) *
                   (vdf_x prf ^ nat (2 ^ nat (vdf_t prf) mod vdf_l prf) mod vdf_n prf)) mod vdf_n prf
                    = vdf_h prf)"
proof -
  define x where "x = vdf_x prf"
  define h where "h = vdf_h prf"
  define t where "t = vdf_t prf"
  define n where "n = vdf_n prf"
  define pi where "pi = vdf_pi prf"
  define l where "l = vdf_l prf"
  define r where "r = 2 ^ nat t mod l"
  define C where "C \<longleftrightarrow> 0 < pi \<and> pi < n \<and> 0 < x \<and> x < n \<and> gcd x n = 1 \<and> 2 < l \<and>
     (\<exists>g''. isPrime l 32 g = returnR (True, g'')) \<and>
     ((pi ^ nat l mod n) * (x ^ nat r mod n)) mod n = h"
  note defs = x_def [symmetric] h_def [symmetric] t_def [symmetric] n_def [symmetric]
    pi_def [symmetric] l_def [symmetric]
  have t0: "0 \<le> t" using assms by (simp add: t_def)
  have "\<exists>b g'. verify prf g = returnR (b, g') \<and> (b \<longleftrightarrow> C)"
  proof (cases "pi \<le> 0 \<or> pi \<ge> n")
    case True
    then have "verify prf g = returnR (False, g)" by (simp add: verify_def Let_def defs)
    moreover have "\<not> C" using True by (auto simp: C_def)
    ultimately show ?thesis by blast
  next
    case g1: False
    show ?thesis
    proof (cases "x \<le> 0 \<or> x \<ge> n")
      case True
      then have "verify prf g = returnR (False, g)" using g1 by (simp add: verify_def Let_def defs)
      moreover have "\<not> C" using True by (auto simp: C_def)
      ultimately show ?thesis by blast
    next
      case g2: False
      then have gc: "gcd_bigint x n = gcd x n" by (intro gcd_bigint_eq) simp_all
      show ?thesis
      proof (cases "gcd x n \<noteq> 1")
        case True
        then have "verify prf g = returnR (False, g)"
          using g1 g2 gc by (simp add: verify_def Let_def defs)
        moreover have "\<not> C" using True by (simp add: C_def)
        ultimately show ?thesis by blast
      next
        case g3: False
        show ?thesis
        proof (cases "l \<le> 2")
          case True
          then have "verify prf g = returnR (False, g)"
            using g1 g2 g3 gc by (simp add: verify_def Let_def defs)
          moreover have "\<not> C" using True by (simp add: C_def)
          ultimately show ?thesis by blast
        next
          case g4: False
          have "bigintByteLength l * 32 \<le> 65536" using assms(2) by (simp add: l_def)
          from isPrime_returns [OF this, of g]
          obtain b0 g1' where ip: "isPrime l 32 g = returnR (b0, g1')" by blast
          show ?thesis
          proof (cases b0)
            case False
            have "verify prf g = returnR (False, g1')"
              using g1 g2 g3 g4 gc ip False by (simp add: verify_def Let_def defs)
            moreover have "\<not> C" using ip False by (simp add: C_def)
            ultimately show ?thesis by blast
          next
            case b0: True
            have pos: "0 < n" "0 < l" using g1 g4 by simp_all
            have r0: "0 \<le> r" using pos by (simp add: r_def)
            have m1: "modpow 2 t l = returnR r"
              using t0 pos by (simp add: modpow_eq r_def)
            have m2: "modpow pi l n = returnR (pi ^ nat l mod n)"
              using g1 g4 by (intro modpow_eq) simp_all
            have m3: "modpow x r n = returnR (x ^ nat r mod n)"
              using g1 g2 r0 by (intro modpow_eq) simp_all
            have sm: "((pi ^ nat l mod n) * (x ^ nat r mod n)) smod n =
                        ((pi ^ nat l mod n) * (x ^ nat r mod n)) mod n"
              using pos by (intro smod_nonneg) simp_all
            have v: "verify prf g =
                    returnR (((pi ^ nat l mod n) * (x ^ nat r mod n)) mod n = h, g1')"
              using g1 g2 g3 g4 gc ip b0 m1 m2 m3 by (simp add: verify_def Let_def defs sm)
            have ex: "\<exists>g''. isPrime l 32 g = returnR (True, g'')" using ip b0 by auto
            have "C \<longleftrightarrow> ((pi ^ nat l mod n) * (x ^ nat r mod n)) mod n = h"
              using g1 g2 g3 g4 ex by (simp add: C_def)
            with v show ?thesis by blast
          qed
        qed
      qed
    qed
  qed
  then show ?thesis unfolding C_def r_def x_def h_def t_def n_def pi_def l_def .
qed

section \<open>Elementary number theory\<close>

lemma prime_nat_ge2: "prime_nat p \<Longrightarrow> 2 \<le> p"
  by (simp add: prime_nat_def)

lemma prime_nat_coprime:
  assumes "prime_nat p" "\<not> p dvd a"
  shows "coprime p a"
proof (rule coprimeI)
  fix c assume c: "c dvd p" "c dvd a"
  from assms(1) c(1) have "c = 1 \<or> c = p" by (simp add: prime_nat_def)
  with c(2) assms(2) show "is_unit c" by auto
qed

lemma prime_nat_dvd_mult:
  assumes "prime_nat p" "p dvd a * b"
  shows "p dvd a \<or> p dvd b"
proof (cases "p dvd a")
  case True
  then show ?thesis by simp
next
  case False
  then have "coprime p a" using assms(1) by (intro prime_nat_coprime)
  then show ?thesis using assms(2) by (simp add: coprime_dvd_mult_right_iff)
qed

lemma prime_nat_dvd_power:
  assumes "prime_nat p" "p dvd a ^ k"
  shows "p dvd a"
  using assms(2)
proof (induction k)
  case 0
  then show ?case using prime_nat_ge2 [OF assms(1)] by simp
next
  case (Suc k)
  then show ?case using prime_nat_dvd_mult [OF assms(1), of a "a ^ k"] by auto
qed

lemma prime_nat_int_dvd_mult:
  assumes "prime_nat p" "int p dvd a * b"
  shows "int p dvd a \<or> int p dvd b"
proof -
  have "int p dvd \<bar>a * b\<bar>" using assms(2) by simp
  then have "int p dvd int (nat \<bar>a\<bar> * nat \<bar>b\<bar>)" by (simp add: abs_mult)
  then have "p dvd nat \<bar>a\<bar> * nat \<bar>b\<bar>" by (simp only: int_dvd_int_iff)
  from prime_nat_dvd_mult [OF assms(1) this]
  have "int p dvd int (nat \<bar>a\<bar>) \<or> int p dvd int (nat \<bar>b\<bar>)" by (simp only: int_dvd_int_iff)
  then show ?thesis by simp
qed

text \<open>Primality by trial division up to the square root.\<close>

lemma prime_nat_sqrt:
  assumes "1 < p" and "\<forall>d. 2 \<le> d \<and> d * d \<le> p \<longrightarrow> \<not> d dvd p"
  shows "prime_nat p"
  unfolding prime_nat_def
proof (intro conjI allI impI)
  show "1 < p" by fact
  fix d assume d: "d dvd p"
  show "d = 1 \<or> d = p"
  proof (rule ccontr)
    assume n: "\<not> (d = 1 \<or> d = p)"
    from d obtain e where e: "p = d * e" by (auto simp: dvd_def)
    have d0: "d \<noteq> 0" "e \<noteq> 0"
    proof -
      show "d \<noteq> 0" using e assms(1) by (cases "d = 0") simp_all
      show "e \<noteq> 0" using e assms(1) by (cases "e = 0") simp_all
    qed
    have e1: "e \<noteq> 1" using e n by auto
    have d2: "2 \<le> d" "2 \<le> e" using d0 e1 n by simp_all
    have "d * d \<le> p \<or> e * e \<le> p"
    proof (cases "d \<le> e")
      case True
      then have "d * d \<le> d * e" by simp
      then show ?thesis by (simp add: e)
    next
      case False
      then have "e * e \<le> d * e" by simp
      then show ?thesis by (simp add: e)
    qed
    moreover have "d dvd p" "e dvd p" by (simp_all add: e)
    ultimately show False using assms(2) d2 by blast
  qed
qed

lemma prime_nat_1009: "prime_nat 1009"
proof (rule prime_nat_sqrt)
  show "1 < (1009::nat)" by simp
  have s: "filter (\<lambda>d. d dvd (1009::nat)) [2..<32] = []" by code_simp
  show "\<forall>d. 2 \<le> d \<and> d * d \<le> 1009 \<longrightarrow> \<not> d dvd (1009::nat)"
  proof (intro allI impI)
    fix d :: nat assume d: "2 \<le> d \<and> d * d \<le> 1009"
    have "d < 32"
    proof (rule ccontr)
      assume "\<not> d < 32"
      then have "32 * 32 \<le> d * d" by (intro mult_le_mono) simp_all
      with d show False by simp
    qed
    with d have "d \<in> {2..<32}" by simp
    then have "d \<in> set [2..<32]" by (simp only: set_upt)
    moreover have "\<forall>x \<in> set [2..<32]. \<not> x dvd (1009::nat)"
      using s by (simp only: filter_empty_conv)
    ultimately show "\<not> d dvd (1009::nat)" by blast
  qed
qed

section \<open>The quota of the random source\<close>

lemma bigintByteLength_lower:
  assumes "16 ^ (2 * b) \<le> n"
  shows "b < bigintByteLength n"
proof -
  have pos: "0 < n" using assms by (rule less_le_trans [rotated]) simp
  let ?len = "length (natToString 16 (nat n))"
  have hi: "nat n < 16 ^ ?len" using pos natToString_bounds [of 16 "nat n"] by simp
  have lo: "(16::nat) ^ (2 * b) \<le> nat n"
  proof -
    have "int (16 ^ (2 * b)) \<le> n" using assms by simp
    then show ?thesis using pos by linarith
  qed
  from lo hi have "(16::nat) ^ (2 * b) < 16 ^ ?len" by (rule le_less_trans)
  then have "2 * b < ?len" by (rule power_less_imp_less_exp [rotated]) simp
  then have "b < (?len + 1) div 2" by linarith
  then show ?thesis using pos by (simp add: bigintByteLength_def toString_def)
qed

lemma verify_quota:
  assumes "0 < pi" "pi < n" "0 < x" "x < n" "gcd x n = 1"
    and "odd l" "318665857834031151167461 \<le> l"
    and "\<forall>p. prime_nat p \<and> p \<le> 1000 \<longrightarrow> \<not> int p dvd l"
    and "65536 < bigintByteLength l * 32"
  shows "verify \<lparr> vdf_x = x, vdf_h = h, vdf_t = t, vdf_n = n, vdf_pi = pi, vdf_l = l,
                   vdf_nonce = nonce \<rparr> g = raiseR QuotaExceededError"
proof -
  have g: "gcd_bigint x n = 1" using assms(3,4,5) by (simp add: gcd_bigint_eq)
  have ip: "isPrime l 32 g = raiseR QuotaExceededError"
    using assms(6,7,8,9) by (rule isPrime_quota)
  have l2: "\<not> l \<le> 2" using assms(7) by simp
  show ?thesis
    using assms(1,2,3,4) g l2 ip by (simp add: verify_def Let_def)
qed

text \<open>The powers of 1009: odd, with 1009 as only prime factor, and at least
  \<open>2 ^ 149\<close> for each 15 factors.\<close>

lemma pow1009_odd: "odd ((1009::int) ^ k)"
  by simp

lemma pow1009_no_small_factor:
  "\<forall>p. prime_nat p \<and> p \<le> 1000 \<longrightarrow> \<not> int p dvd (1009::int) ^ k"
proof (intro allI impI notI)
  fix p assume p: "prime_nat p \<and> p \<le> 1000" and d: "int p dvd (1009::int) ^ k"
  have e: "(1009::int) ^ k = int (1009 ^ k)" by simp
  from d have "int p dvd int (1009 ^ k)" by (simp only: e)
  then have pk: "p dvd 1009 ^ k" by (simp only: int_dvd_int_iff)
  from p have pp: "prime_nat p" by (rule conjunct1)
  from pp pk have "p dvd 1009" by (rule prime_nat_dvd_power)
  with prime_nat_1009 [unfolded prime_nat_def] have "p = 1 \<or> p = 1009" by blast
  moreover from pp have "1 < p" unfolding prime_nat_def by (rule conjunct1)
  moreover from p have "p \<le> 1000" by (rule conjunct2)
  ultimately show False by linarith
qed

lemma pow1009_lower: "(2::int) ^ (149 * j) \<le> 1009 ^ (15 * j)"
proof -
  have b: "(2::int) ^ 149 \<le> 1009 ^ 15" by simp
  have "(2::int) ^ (149 * j) = (2 ^ 149) ^ j" by (rule power_mult)
  also have "\<dots> \<le> (1009 ^ 15) ^ j" using b by (rule power_mono) simp
  also have "\<dots> = 1009 ^ (15 * j)" by (rule power_mult [symmetric])
  finally show ?thesis .
qed

lemma pow_16_2: "(16::int) ^ m = 2 ^ (4 * m)"
proof -
  have "(16::int) = 2 ^ 4" by simp
  then have "(16::int) ^ m = (2 ^ 4) ^ m" by (rule arg_cong)
  also have "\<dots> = 2 ^ (4 * m)" by (rule power_mult [symmetric])
  finally show ?thesis .
qed

lemma pow1009_large:
  assumes "8 * b \<le> 149 * j" and "79 \<le> 149 * j"
  shows "b < bigintByteLength (1009 ^ (15 * j))" and "318665857834031151167461 \<le> (1009::int) ^ (15 * j)"
proof -
  have "(16::int) ^ (2 * b) = 2 ^ (4 * (2 * b))" by (rule pow_16_2)
  also have "\<dots> \<le> 2 ^ (149 * j)" using assms(1) by (intro power_increasing) simp_all
  also have "\<dots> \<le> 1009 ^ (15 * j)" by (rule pow1009_lower)
  finally show "b < bigintByteLength (1009 ^ (15 * j))" by (rule bigintByteLength_lower)
  have "(318665857834031151167461::int) \<le> 2 ^ 79" by simp
  also have "(2::int) ^ 79 \<le> 2 ^ (149 * j)" using assms(2) by (intro power_increasing) simp_all
  also have "\<dots> \<le> 1009 ^ (15 * j)" by (rule pow1009_lower)
  finally show "318665857834031151167461 \<le> (1009::int) ^ (15 * j)" .
qed

lemma quota_exceeded: "b < B \<Longrightarrow> 65536 \<le> 32 * b \<Longrightarrow> 65536 < B * (32::nat)"
  by linarith

section \<open>Big-endian bytes\<close>

lemma length_be_bytes [simp]: "length (be_bytes len v) = len"
  by (simp add: be_bytes_def)

lemma be_bytes_0 [simp]: "be_bytes 0 v = []"
  by (simp add: be_bytes_def)

lemma be_bytes_Suc: "be_bytes (Suc len) v = be_bytes len (v div 256) @ [word_of_int v]"
proof -
  have "map (\<lambda>i. word_of_int (v div 256 ^ (Suc len - 1 - i)) :: byte) [0..<len] =
        map (\<lambda>i. word_of_int ((v div 256) div 256 ^ (len - 1 - i))) [0..<len]"
  proof (rule map_cong [OF refl])
    fix i assume "i \<in> set [0..<len]"
    then have i: "i < len" by simp
    then have "Suc len - 1 - i = Suc (len - 1 - i)" by simp
    then have "v div 256 ^ (Suc len - 1 - i) = v div (256 * 256 ^ (len - 1 - i))" by simp
    also have "\<dots> = (v div 256) div 256 ^ (len - 1 - i)"
      by (rule zdiv_zmult2_eq) simp
    finally show "(word_of_int (v div 256 ^ (Suc len - 1 - i)) :: byte) =
                  word_of_int ((v div 256) div 256 ^ (len - 1 - i))" by simp
  qed
  then show ?thesis by (simp add: be_bytes_def)
qed

lemma be_bytes_zero: "be_bytes len 0 = replicate len 0"
  by (induction len) (simp_all add: be_bytes_Suc replicate_append_same)

lemma be_bytes_pad:
  assumes "0 \<le> v" "v < 256 ^ len"
  shows "be_bytes (a + len) v = replicate a 0 @ be_bytes len v"
  using assms
proof (induction len arbitrary: v)
  case 0
  then have "v = 0" by simp
  then show ?case by (simp add: be_bytes_zero)
next
  case (Suc len)
  have "0 \<le> v div 256" using Suc.prems by linarith
  moreover have "v div 256 < 256 ^ len"
  proof -
    have "v < 256 * 256 ^ len" using Suc.prems by simp
    then show ?thesis by linarith
  qed
  ultimately have "be_bytes (a + len) (v div 256) = replicate a 0 @ be_bytes len (v div 256)"
    by (rule Suc.IH)
  then show ?case by (simp add: be_bytes_Suc)
qed

section \<open>Hexadecimal strings\<close>

lemma digit_cases:
  assumes "d < (16::nat)"
  shows "d = 0 \<or> d = 1 \<or> d = 2 \<or> d = 3 \<or> d = 4 \<or> d = 5 \<or> d = 6 \<or> d = 7
    \<or> d = 8 \<or> d = 9 \<or> d = 10 \<or> d = 11 \<or> d = 12 \<or> d = 13 \<or> d = 14 \<or> d = 15"
  using assms by presburger

lemma hexVal_digitChar: "d < 16 \<Longrightarrow> hexVal (digitChar d) = Some d"
  by (drule digit_cases) (elim disjE; simp add: hexVal_def digitChar_def)

lemma hexDecode_pair:
  assumes "hi < 16" "lo < 16"
  shows "hexDecode (digitChar hi # digitChar lo # cs) = word_of_nat (16 * hi + lo) # hexDecode cs"
  using assms by (simp add: hexVal_digitChar)

lemma hexDecode_snoc:
  assumes "length (hexDecode s) * 2 = length s" "hi < 16" "lo < 16"
  shows "hexDecode (s @ [digitChar hi, digitChar lo]) = hexDecode s @ [word_of_nat (16 * hi + lo)]"
  using assms
proof (induction s rule: hexDecode.induct)
  case (1 a b cs)
  show ?case
  proof (cases "hexVal a")
    case None
    with 1 show ?thesis by simp
  next
    case (Some va)
    note a = Some
    show ?thesis
    proof (cases "hexVal b")
      case None
      with a 1 show ?thesis by simp
    next
      case (Some vb)
      note b = Some
      from a b 1(2) have "length (hexDecode cs) * 2 = length cs" by simp
      from 1(1) [OF a b this 1(3) 1(4)]
      show ?thesis using a b by simp
    qed
  qed
qed (simp_all add: hexVal_digitChar)

lemma hexBytes_small:
  assumes "m < 256"
  shows "hexBytes m = [word_of_nat m]"
proof (cases "m < 16")
  case True
  then have s: "natToString 16 m = [digitChar m]" by (subst natToString.simps) simp
  have "hexVal CHR ''0'' = Some 0" by (simp add: hexVal_def)
  then have "hexDecode [CHR ''0'', digitChar m] = [word_of_nat m]"
    using True by (simp add: hexVal_digitChar)
  then show ?thesis by (simp add: hexBytes_def s)
next
  case False
  from assms have d: "m div 16 < 16" by simp
  have s: "natToString 16 m = [digitChar (m div 16), digitChar (m mod 16)]"
    using False d by (subst natToString.simps, subst natToString.simps) simp
  have "hexDecode [digitChar (m div 16), digitChar (m mod 16)] =
        [word_of_nat (16 * (m div 16) + m mod 16)]"
    using hexDecode_pair [of "m div 16" "m mod 16" "[]"] d by simp
  then show ?thesis by (simp add: hexBytes_def s)
qed

lemma natToString16_step:
  assumes "256 \<le> m"
  shows "natToString 16 m =
         natToString 16 (m div 256) @ [digitChar (m div 16 mod 16), digitChar (m mod 16)]"
proof -
  have a: "natToString 16 m = natToString 16 (m div 16) @ [digitChar (m mod 16)]"
    using assms by (subst natToString.simps) simp
  have "16 \<le> m div 16" using assms by simp
  then have b: "natToString 16 (m div 16) =
                natToString 16 (m div 16 div 16) @ [digitChar (m div 16 mod 16)]"
    by (subst natToString.simps) simp
  have "m div 16 div 16 = m div 256" by (simp add: div_mult2_eq [symmetric])
  with a b show ?thesis by simp
qed

lemma hexBytes_props:
  "0 < m \<Longrightarrow>
     0 < length (hexBytes m) \<and> 256 ^ (length (hexBytes m) - 1) \<le> m \<and> m < 256 ^ length (hexBytes m)
     \<and> hexBytes m = be_bytes (length (hexBytes m)) (int m)
     \<and> length (hexBytes m) * 2 =
         length (if length (natToString 16 m) mod 2 = 1 then CHR ''0'' # natToString 16 m
                 else natToString 16 m)"
proof (induction m rule: less_induct)
  case (less m)
  show ?case
  proof (cases "m < 256")
    case True
    have l: "length (natToString 16 m) = (if m < 16 then 1 else 2)"
    proof (cases "m < 16")
      case True
      then show ?thesis by (subst natToString.simps) simp
    next
      case False
      with \<open>m < 256\<close> have "m div 16 < 16" by simp
      then show ?thesis using False
        by (subst natToString.simps, subst natToString.simps) simp
    qed
    show ?thesis using True less.prems
      by (simp add: hexBytes_small l be_bytes_Suc [of 0, simplified] del: be_bytes_0)
  next
    case False
    define q where "q = m div 256"
    have q: "0 < q" "q < m" using False by (simp_all add: q_def)
    define L where "L = length (hexBytes q)"
    note ih = less.IH [OF q(2) q(1), folded L_def]
    have st: "natToString 16 m =
              natToString 16 q @ [digitChar (m div 16 mod 16), digitChar (m mod 16)]"
      using natToString16_step [of m] False by (simp add: q_def)
    define pad where "pad = (\<lambda>s. if length s mod 2 = 1 then CHR ''0'' # s else s)"
    have pd: "pad (natToString 16 m) =
              pad (natToString 16 q) @ [digitChar (m div 16 mod 16), digitChar (m mod 16)]"
      by (simp add: pad_def st)
    have hq: "hexBytes q = hexDecode (pad (natToString 16 q))"
      by (simp add: hexBytes_def pad_def)
    have hm: "hexBytes m = hexDecode (pad (natToString 16 m))"
      by (simp add: hexBytes_def pad_def)
    have len: "length (hexDecode (pad (natToString 16 q))) * 2 = length (pad (natToString 16 q))"
      using ih by (simp add: hq pad_def L_def)
    have "hexBytes m = hexBytes q @ [word_of_nat (16 * (m div 16 mod 16) + m mod 16)]"
      unfolding hm pd hq by (rule hexDecode_snoc [OF len]) simp_all
    moreover have "(word_of_nat (16 * (m div 16 mod 16) + m mod 16) :: byte) = word_of_int (int m)"
    proof -
      have "16 * (m div 16 mod 16) + m mod 16 = m mod 256"
        by (simp add: mod_mult2_eq [of m 16 16, simplified])
      then show ?thesis
        by (simp add: word_of_nat_eq_iff take_bit_eq_mod) 
    qed
    ultimately have e: "hexBytes m = hexBytes q @ [word_of_int (int m)]" by simp
    have lm: "length (hexBytes m) = Suc L" by (simp add: e L_def)
    have qd: "int q = int m div 256" by (simp add: q_def zdiv_int)
    have "hexBytes m = be_bytes (Suc L) (int m)"
      using ih by (simp add: e be_bytes_Suc qd [symmetric])
    moreover have "256 ^ (Suc L - 1) \<le> m"
    proof -
      have "256 * 256 ^ (L - 1) \<le> 256 * q" using ih by simp
      also have "\<dots> \<le> m" by (simp add: q_def)
      finally show ?thesis using ih by (cases L) simp_all
    qed
    moreover have "m < 256 ^ Suc L"
    proof -
      have "m < 256 * (q + 1)" unfolding q_def by (simp add: less_mult_imp_div_less dividend_less_times_div) 
      also have "\<dots> \<le> 256 * 256 ^ L" using ih by simp
      finally show ?thesis by simp
    qed
    moreover have "length (hexBytes m) * 2 = length (pad (natToString 16 m))"
      using len by (simp add: pd lm hq [symmetric] L_def)
    ultimately show ?thesis by (simp add: lm pad_def)
  qed
qed

lemma bigintToBytes_pos: "0 < x \<Longrightarrow> bigintToBytes x = hexBytes (nat x)"
  by (simp add: bigintToBytes_def toString_def hexBytes_def Let_def)

lemma bigintByteLength_pos:
  assumes "0 < x"
  shows "bigintByteLength x = length (hexBytes (nat x))"
proof -
  from assms have m: "0 < nat x" by simp
  note p = hexBytes_props [OF m]
  from p have "length (hexBytes (nat x)) * 2 =
      length (if length (natToString 16 (nat x)) mod 2 = 1 then CHR ''0'' # natToString 16 (nat x)
              else natToString 16 (nat x))" by blast
  then have "length (hexBytes (nat x)) = (length (natToString 16 (nat x)) + 1) div 2"
    by (simp split: if_splits)
  then show ?thesis using assms by (simp add: bigintByteLength_def toString_def)
qed

lemma bigintByteLength_bounds:
  assumes "0 < x"
  shows "0 < bigintByteLength x" "256 ^ (bigintByteLength x - 1) \<le> x" "x < 256 ^ bigintByteLength x"
proof -
  from assms have m: "0 < nat x" by simp
  note p = hexBytes_props [OF m]
  define L where "L = length (hexBytes (nat x))"
  have L: "bigintByteLength x = L" using bigintByteLength_pos [OF assms] by (simp add: L_def)
  from p show "0 < bigintByteLength x" by (simp add: L L_def)
  from p have "256 ^ (L - 1) \<le> nat x" by (simp add: L_def)
  then have "int (256 ^ (L - 1)) \<le> int (nat x)" by (simp only: of_nat_le_iff)
  then show "256 ^ (bigintByteLength x - 1) \<le> x" using assms by (simp add: L)
  from p have "nat x < 256 ^ L" by (simp add: L_def)
  then have "int (nat x) < int (256 ^ L)" by (simp only: of_nat_less_iff)
  then show "x < 256 ^ bigintByteLength x" using assms by (simp add: L)
qed

lemma bigintToFixedBytes_be:
  assumes "0 \<le> x" "x < 256 ^ len" "0 < len"
  shows "bigintToFixedBytes x len = Inr (be_bytes len x)"
proof (cases "x = 0")
  case True
  obtain k where k: "len = Suc k" using assms(3) by (cases len) simp_all
  have "replicate k (0::byte) @ [0] = 0 # replicate k 0"
    by (simp add: replicate_append_same)
  then show ?thesis using True
    by (simp add: bigintToFixedBytes_def bigintToBytes_def be_bytes_zero k Let_def)
next
  case False
  with assms have pos: "0 < x" by simp
  then have m: "0 < nat x" by simp
  note p = hexBytes_props [OF m]
  define L where "L = length (hexBytes (nat x))"
  have b: "bigintToBytes x = be_bytes L x"
    using p pos by (simp add: bigintToBytes_pos L_def)
  have lb: "length (bigintToBytes x) = L" by (simp add: b)
  have lo: "256 ^ (L - 1) \<le> x" using bigintByteLength_bounds(2) [OF pos]
    by (simp add: bigintByteLength_pos [OF pos] L_def)
  have hi: "x < 256 ^ L" using bigintByteLength_bounds(3) [OF pos]
    by (simp add: bigintByteLength_pos [OF pos] L_def)
  have "(256::int) ^ (L - 1) < 256 ^ len" using lo assms(2) by linarith
  then have "L - 1 < len" by simp
  moreover have "0 < L" using p by (simp add: L_def)
  ultimately have le: "L \<le> len" by simp
  then obtain a where a: "len = a + L" by (metis add.commute le_Suc_ex)
  have pad: "be_bytes (a + L) x = replicate a 0 @ be_bytes L x"
    using assms(1) hi by (rule be_bytes_pad)
  show ?thesis
    unfolding bigintToFixedBytes_def Let_def lb using le
    by (simp add: a pad b)
qed

section \<open>The other encodings\<close>

lemma u64be_loop_eq:
  "i \<le> length b \<Longrightarrow> u64be_loop i x b = be_bytes i x @ drop i b"
proof (induction i arbitrary: x b)
  case 0
  then show ?case by simp
next
  case (Suc i)
  have w: "(word_of_int (x AND 255) :: byte) = word_of_int x"
  proof -
    have "x AND 255 = x mod 256" using and_mask_int [of x 8] by (simp add: mask_eq_exp_minus_1)
    then show ?thesis by (simp add: word_of_int_eq_iff take_bit_eq_mod)
  qed
  have "u64be_loop (Suc i) x b = u64be_loop i (drop_bit 8 x) (b[i := word_of_int x])"
    by (simp add: w)
  also have "\<dots> = be_bytes i (drop_bit 8 x) @ drop i (b[i := word_of_int x])"
    using Suc.prems by (intro Suc.IH) simp
  also have "drop i (b[i := word_of_int x]) = word_of_int x # drop (Suc i) b"
    using Suc.prems by (simp add: drop_update_cancel Cons_nth_drop_Suc [symmetric] upd_conv_take_nth_drop)
  also have "drop_bit 8 x = x div 256" by (simp add: drop_bit_eq_div)
  finally show ?case by (simp add: be_bytes_Suc)
qed

lemma u64be_be:
  assumes "0 \<le> t" "t < 2 ^ 64"
  shows "u64be t = Inr (be_bytes 8 t)"
  using assms u64be_loop_eq [of 8 "replicate 8 0" t] by (simp add: u64be_def)

lemma parseHex_hexEncode:
  "foldl (\<lambda>acc c. acc * 16 + int (case hexVal c of None \<Rightarrow> 0 | Some v \<Rightarrow> v)) a (hexEncode bs) =
   foldl (\<lambda>a b. a * 256 + uint b) a bs"
proof (induction bs arbitrary: a)
  case Nil
  then show ?case by (simp add: hexEncode_def)
next
  case (Cons b bs)
  define q r where "q = unat b div 16" and "r = unat b mod 16"
  have h: "hexEncode (b # bs) = digitChar q # digitChar r # hexEncode bs"
    by (simp add: hexEncode_def q_def r_def)
  have "unat b < 256" using unsigned_less [of b, where 'a = nat] by simp
  then have d: "q < 16" "r < 16" by (simp_all add: q_def r_def)
  have m: "unat b = 16 * q + r" by (simp add: q_def r_def)
  have u: "uint b = int (16 * q + r)" unfolding m [symmetric] by simp
  have e: "(a * 16 + int q) * 16 + int r = a * 256 + uint b" unfolding u by simp
  have "foldl (\<lambda>acc c. acc * 16 + int (case hexVal c of None \<Rightarrow> 0 | Some v \<Rightarrow> v)) a
          (hexEncode (b # bs)) =
        foldl (\<lambda>acc c. acc * 16 + int (case hexVal c of None \<Rightarrow> 0 | Some v \<Rightarrow> v))
          ((a * 16 + int q) * 16 + int r) (hexEncode bs)"
    unfolding h by (simp add: hexVal_digitChar d)
  also have "\<dots> = foldl (\<lambda>a b. a * 256 + uint b) (a * 256 + uint b) bs"
    unfolding e by (rule Cons.IH)
  finally show ?case by simp
qed

lemma bytesToBigint_be: "bytesToBigint bs = be_int bs"
proof (cases bs)
  case Nil
  then show ?thesis by (simp add: bytesToBigint_def be_int_def)
next
  case (Cons b bs')
  then show ?thesis
    unfolding bytesToBigint_def parseHex_def be_int_def parseHex_hexEncode by simp
qed

lemma CHALLENGE_TAG_bytes:
  "CHALLENGE_TAG = [119, 101, 115, 111, 108, 111, 119, 115, 107, 105, 45, 118, 49]"
  by (simp add: CHALLENGE_TAG_def)

lemma challenge_payload_be:
  assumes n: "0 < vdf_n out"
    and x: "0 \<le> vdf_x out" "vdf_x out < 256 ^ bigintByteLength (vdf_n out)"
    and h: "0 \<le> vdf_h out" "vdf_h out < 256 ^ bigintByteLength (vdf_n out)"
    and t: "0 \<le> vdf_t out" "vdf_t out < 2 ^ 64"
  shows "challenge_payload out nonce =
         Inr ([119, 101, 115, 111, 108, 111, 119, 115, 107, 105, 45, 118, 49]
              @ be_bytes (bigintByteLength (vdf_n out)) (vdf_x out)
              @ be_bytes (bigintByteLength (vdf_n out)) (vdf_h out)
              @ be_bytes 8 (vdf_t out)
              @ be_bytes (bigintByteLength (vdf_n out)) (vdf_n out)
              @ nonce)"
proof -
  define nLen where "nLen = bigintByteLength (vdf_n out)"
  note b = bigintByteLength_bounds [OF n, folded nLen_def]
  have bx: "bigintToFixedBytes (vdf_x out) nLen = Inr (be_bytes nLen (vdf_x out))"
    using x b(1) unfolding nLen_def [symmetric] by (intro bigintToFixedBytes_be)
  have bh: "bigintToFixedBytes (vdf_h out) nLen = Inr (be_bytes nLen (vdf_h out))"
    using h b(1) unfolding nLen_def [symmetric] by (intro bigintToFixedBytes_be)
  have bn: "bigintToFixedBytes (vdf_n out) nLen = Inr (be_bytes nLen (vdf_n out))"
    using n b by (intro bigintToFixedBytes_be) simp_all
  have bt: "u64be (vdf_t out) = Inr (be_bytes 8 (vdf_t out))"
    using t by (rule u64be_be)
  show ?thesis
    unfolding challenge_payload_def nLen_def [symmetric] Let_def bx bh bn bt
    by (simp add: concatBytes_def CHALLENGE_TAG_bytes)
qed

section \<open>The wheel and the walk of \<open>nextPrime\<close>\<close>

lemma wheel_residues_eq:
  "wheel_residues = [1, 11, 13, 17, 19, 23, 29, 31, 37, 41, 43, 47, 53, 59, 61, 67, 71, 73, 79, 83,
     89, 97, 101, 103, 107, 109, 113, 121, 127, 131, 137, 139, 143, 149, 151, 157, 163, 167, 169,
     173, 179, 181, 187, 191, 193, 197, 199, 209]"
  by code_simp

lemma wheel_increments_eq:
  "wheel_increments = [10, 2, 4, 2, 4, 6, 2, 6, 4, 2, 4, 6, 6, 2, 6, 4, 2, 6, 4, 6, 8, 4, 2, 4, 2,
     4, 8, 6, 4, 6, 2, 4, 6, 2, 6, 6, 4, 2, 4, 6, 2, 6, 4, 2, 4, 2, 10, 2]"
  by code_simp

lemma wheel_lengths: "length wheel_residues = 48" "length wheel_increments = 48"
  by (simp_all add: wheel_residues_eq wheel_increments_eq)

lemma wheel_increments_pos: "idx < 48 \<Longrightarrow> 0 < wheel_increments ! idx"
proof -
  have "\<forall>v \<in> set wheel_increments. 0 < v" by (simp add: wheel_increments_eq)
  then show "idx < 48 \<Longrightarrow> 0 < wheel_increments ! idx"
    using nth_mem [of idx wheel_increments] by (simp add: wheel_lengths)
qed

lemma alignToWheel_scan_props:
  assumes "\<forall>r \<in> set rs. 0 \<le> r" "alignToWheel_scan p m rs i = (q, idx)" "m < 210"
  shows "p \<le> q \<and> (idx = 0 \<or> idx < i + length rs)"
  using assms
proof (induction rs arbitrary: i)
  case Nil
  then show ?case by (simp add: wheel_mod_def wheel_residues_eq)
next
  case (Cons r rs)
  show ?case
  proof (cases "m \<le> r")
    case True
    with Cons.prems show ?thesis by auto
  next
    case False
    with Cons.prems have "alignToWheel_scan p m rs (i + 1) = (q, idx)" by simp
    with Cons.IH [of "i + 1"] Cons.prems show ?thesis by auto
  qed
qed

lemma alignToWheel_props:
  assumes "0 \<le> p" "alignToWheel p = (q, idx)"
  shows "p \<le> q" "idx < 48"
proof -
  have m: "p smod wheel_mod < 210"
    using assms(1) by (simp add: smod_nonneg wheel_mod_def)
  have r: "\<forall>r \<in> set wheel_residues. 0 \<le> r" by (simp add: wheel_residues_eq)
  from alignToWheel_scan_props [OF r assms(2) [unfolded alignToWheel_def] m]
  show "p \<le> q" "idx < 48" by (auto simp: wheel_lengths)
qed

lemma nextPrime_loop_result:
  assumes "nextPrime_loop k p idx g = Some y"
  shows "idx < 48 \<longrightarrow>
         (case y of Inl e \<Rightarrow> e = QuotaExceededError
          | Inr (q, g') \<Rightarrow> p \<le> q \<and> (\<exists>g0. isPrime q k g0 = returnR (True, g')))"
proof -
  let ?P = "\<lambda>k p idx (g :: rng) y. idx < (48::nat) \<longrightarrow>
         (case y of Inl e \<Rightarrow> e = QuotaExceededError
          | Inr (q, g') \<Rightarrow> p \<le> q \<and> (\<exists>g0. isPrime q k g0 = returnR (True, g')))"
  have "?P k p idx g y"
  proof (rule nextPrime_loop.raw_induct [where P = ?P, OF _ assms])
    fix f :: "nat \<Rightarrow> int \<Rightarrow> nat \<Rightarrow> rng \<Rightarrow> (int \<times> rng) result" and k p idx g y
    assume ih: "\<And>k p idx g y. f k p idx g = Some y \<Longrightarrow> ?P k p idx g y"
    assume bd: "bindR (isPrime p k g) (\<lambda>(ok, g').
       if ok then returnR (p, g')
       else if idx < length wheel_increments
         then f k (p + wheel_increments ! idx) ((idx + 1) mod length wheel_increments) g'
         else raiseR TypeError) = Some y"
    show "?P k p idx g y"
    proof
      assume idx: "idx < 48"
      from isPrime_outcome [of p k g] show
        "case y of Inl e \<Rightarrow> e = QuotaExceededError
         | Inr (q, g') \<Rightarrow> p \<le> q \<and> (\<exists>g0. isPrime q k g0 = returnR (True, g'))"
      proof
        assume "\<exists>b g'. isPrime p k g = returnR (b, g')"
        then obtain b g' where r: "isPrime p k g = returnR (b, g')" by blast
        from bd have st: "(if b then returnR (p, g')
            else if idx < length wheel_increments
              then f k (p + wheel_increments ! idx) ((idx + 1) mod length wheel_increments) g'
              else raiseR TypeError) = Some y"
          unfolding r by simp
        show ?thesis
        proof (cases b)
          case True
          with st have "y = Inr (p, g')" by (simp add: returnR_def)
          with r True show ?thesis by auto
        next
          case False
          with st idx have
            "f k (p + wheel_increments ! idx) ((idx + 1) mod length wheel_increments) g' = Some y"
            by (simp add: wheel_lengths)
          from ih [OF this] have
            "case y of Inl e \<Rightarrow> e = QuotaExceededError
             | Inr (q, g') \<Rightarrow> p + wheel_increments ! idx \<le> q \<and> (\<exists>g0. isPrime q k g0 = returnR (True, g'))"
            by (simp add: wheel_lengths)
          with wheel_increments_pos [OF idx] show ?thesis
            by (auto split: sum.splits)
        qed
      next
        assume "isPrime p k g = raiseR QuotaExceededError \<and> 65536 < bigintByteLength p * k"
        then have r: "isPrime p k g = raiseR QuotaExceededError" by simp
        from bd have "raiseR QuotaExceededError = Some y" unfolding r by simp
        then show ?thesis by (auto simp: raiseR_def)
      qed
    qed
  qed
  then show ?thesis .
qed

lemma nextPrime_result:
  assumes "nextPrime n k g = Some y"
  shows "case y of Inl e \<Rightarrow> e = QuotaExceededError
         | Inr (q, g') \<Rightarrow> n \<le> q \<and> 2 \<le> q \<and>
             (q \<le> 7 \<and> g' = g \<or> (\<exists>g0. isPrime q k g0 = returnR (True, g')))"
proof (cases "n \<le> 7")
  case True
  with assms show ?thesis
    by (auto simp: nextPrime_def returnR_def split: if_splits)
next
  case False
  obtain p idx where a: "alignToWheel n = (p, idx)" by (cases "alignToWheel n")
  from False have "0 \<le> n" by simp
  note al = alignToWheel_props [OF this a]
  from assms False a have "nextPrime_loop k p idx g = Some y"
    by (simp add: nextPrime_def)
  from nextPrime_loop_result [OF this] al(2) have
    "case y of Inl e \<Rightarrow> e = QuotaExceededError
     | Inr (q, g') \<Rightarrow> p \<le> q \<and> (\<exists>g0. isPrime q k g0 = returnR (True, g'))" by simp
  with al(1) False show ?thesis by (auto split: sum.splits)
qed

lemma nextPrime_raises: "nextPrime n k g = raiseR e \<Longrightarrow> e = QuotaExceededError"
  using nextPrime_result [of n k g "Inl e"] by (simp add: raiseR_def)

section \<open>Fermat's little theorem and the square roots of one\<close>

lemma prime_nat_dvd_binomial:
  assumes p: "prime_nat p" and k: "0 < k" "k < p"
  shows "p dvd (p choose k)"
proof -
  obtain k' where k': "k = Suc k'" using k(1) by (cases k) simp_all
  obtain p' where p': "p = Suc p'" using k by (cases p) simp_all
  have "Suc p' * (p' choose k') = (Suc p' choose Suc k') * Suc k'"
    by (rule Suc_times_binomial_eq)
  then have "k * (p choose k) = p * (p' choose k')" by (simp add: k' p' mult.commute)
  then have "p dvd k * (p choose k)" by simp
  moreover have "\<not> p dvd k" using k by (auto dest: dvd_imp_le)
  ultimately show ?thesis using prime_nat_dvd_mult [OF p] by blast
qed

lemma fermat_power_p:
  assumes p: "prime_nat p"
  shows "(a ^ p) mod p = a mod p"
proof (induction a)
  case 0
  have "0 < p" using prime_nat_ge2 [OF p] by simp
  then show ?case by (simp add: zero_power)
next
  case (Suc a)
  have p2: "2 \<le> p" by (rule prime_nat_ge2 [OF p])
  have "(a + 1) ^ p = (\<Sum>k\<le>p. (p choose k) * a ^ k * 1 ^ (p - k))"
    using binomial_ring [of a 1 p] by simp
  also have "\<dots> = (\<Sum>k\<le>p. (p choose k) * a ^ k)" by simp
  also have "{..p} = insert 0 (insert p {1..<p})" using p2 by auto
  also have "(\<Sum>k\<in>insert 0 (insert p {1..<p}). (p choose k) * a ^ k) =
             1 + (a ^ p + (\<Sum>k\<in>{1..<p}. (p choose k) * a ^ k))"
    using p2 by simp
  finally have e: "(a + 1) ^ p = 1 + (a ^ p + (\<Sum>k\<in>{1..<p}. (p choose k) * a ^ k))" .
  have "p dvd (\<Sum>k\<in>{1..<p}. (p choose k) * a ^ k)"
  proof (rule dvd_sum)
    fix k assume "k \<in> {1..<p}"
    then have "p dvd (p choose k)" by (intro prime_nat_dvd_binomial [OF p]) simp_all
    then show "p dvd (p choose k) * a ^ k" by simp
  qed
  then obtain c where c: "(\<Sum>k\<in>{1..<p}. (p choose k) * a ^ k) = p * c" by (auto simp: dvd_def)
  have "(Suc a) ^ p mod p = (1 + (a ^ p + p * c)) mod p" using e c by simp
  also have "\<dots> = (1 + a ^ p) mod p" by (simp add: add.assoc [symmetric])
  also have "\<dots> = Suc (a ^ p mod p) mod p" by (simp add: mod_Suc_eq)
  also have "\<dots> = Suc (a mod p) mod p" by (simp only: Suc.IH)
  also have "\<dots> = Suc a mod p" by (simp add: mod_Suc_eq)
  finally show ?case .
qed

lemma fermat_int:
  assumes p: "prime_nat p" and a: "0 < a" "a < int p"
  shows "a ^ (p - 1) mod int p = 1"
proof -
  have p2: "2 \<le> p" by (rule prime_nat_ge2 [OF p])
  define m where "m = nat a"
  have am: "a = int m" using a by (simp add: m_def)
  have m: "0 < m" "m < p" using a by (simp_all add: m_def)
  have "(m ^ p) mod p = m mod p" by (rule fermat_power_p [OF p])
  then have "int ((m ^ p) mod p) = int (m mod p)" by simp
  then have "(a ^ p) mod int p = a mod int p" by (simp add: am zmod_int)
  then have "int p dvd a ^ p - a" by (simp add: mod_eq_dvd_iff)
  moreover have "a ^ p - a = a * (a ^ (p - 1) - 1)"
  proof -
    have "p = Suc (p - 1)" using p2 by simp
    then have "a ^ p = a * a ^ (p - 1)" by (metis power_Suc)
    then show ?thesis by (simp add: algebra_simps)
  qed
  ultimately have "int p dvd a * (a ^ (p - 1) - 1)" by simp
  from prime_nat_int_dvd_mult [OF p this] have "int p dvd a \<or> int p dvd a ^ (p - 1) - 1" .
  moreover have "\<not> int p dvd a" using a by (auto dest: zdvd_imp_le)
  ultimately have "int p dvd a ^ (p - 1) - 1" by simp
  then have "a ^ (p - 1) mod int p = 1 mod int p" by (simp add: mod_eq_dvd_iff)
  then show ?thesis using p2 by simp
qed

lemma prime_sqrt_one:
  assumes p: "prime_nat p" and x: "0 \<le> x" "x < int p" and sq: "x * x mod int p = 1"
  shows "x = 1 \<or> x = int p - 1"
proof -
  have p2: "2 \<le> p" by (rule prime_nat_ge2 [OF p])
  from sq have "x * x mod int p = 1 mod int p" using p2 by simp
  then have "int p dvd x * x - 1" by (simp add: mod_eq_dvd_iff)
  moreover have "x * x - 1 = (x - 1) * (x + 1)" by (simp add: algebra_simps)
  ultimately have "int p dvd (x - 1) * (x + 1)" by simp
  from prime_nat_int_dvd_mult [OF p this] show ?thesis
  proof
    assume d: "int p dvd x - 1"
    have "x - 1 = 0"
    proof (rule ccontr)
      assume n: "x - 1 \<noteq> 0"
      from sq x have "x \<noteq> 0" by auto
      with x n have "0 < x - 1" by simp
      from zdvd_imp_le [OF d this] x show False by simp
    qed
    then show ?thesis by simp
  next
    assume d: "int p dvd x + 1"
    have "0 < x + 1" using x by simp
    from zdvd_imp_le [OF d this] x show ?thesis by simp
  qed
qed

section \<open>Miller-Rabin accepts every prime\<close>

lemma millerRabin_loop_prime:
  assumes p: "prime_nat p"
  shows "0 \<le> x \<Longrightarrow> x < int p \<Longrightarrow> x \<noteq> 1 \<Longrightarrow> x \<noteq> int p - 1 \<Longrightarrow>
         x ^ (2 ^ Suc k) mod int p = 1 \<Longrightarrow> millerRabin_loop (int p) k x = True"
proof (induction k arbitrary: x)
  case 0
  then have "x * x mod int p = 1" by (simp add: power2_eq_square)
  from prime_sqrt_one [OF p 0(1) 0(2) this] 0(3) 0(4) show ?case by simp
next
  case (Suc k)
  have p2: "2 \<le> p" by (rule prime_nat_ge2 [OF p])
  define x' where "x' = x * x mod int p"
  have sm: "(x * x) smod int p = x'"
    using Suc.prems(1) by (simp add: smod_nonneg x'_def)
  have r: "0 \<le> x'" "x' < int p" using p2 by (simp_all add: x'_def)
  have n1: "x' \<noteq> 1"
  proof
    assume "x' = 1"
    then have "x * x mod int p = 1" by (simp add: x'_def)
    from prime_sqrt_one [OF p Suc.prems(1) Suc.prems(2) this] Suc.prems(3) Suc.prems(4)
    show False by simp
  qed
  show ?case
  proof (cases "x' = int p - 1")
    case True
    then show ?thesis by (simp add: sm Let_def)
  next
    case False
    have "x' ^ (2 ^ Suc k) mod int p = (x * x) ^ (2 ^ Suc k) mod int p"
      by (simp add: x'_def power_mod)
    also have "(x * x) ^ (2 ^ Suc k) = x ^ (2 ^ Suc (Suc k))"
      by (simp add: power2_eq_square [symmetric] power_mult [symmetric])
    finally have "x' ^ (2 ^ Suc k) mod int p = 1" using Suc.prems(5) by simp
    from Suc.IH [OF r n1 False this] show ?thesis
      using False n1 by (simp add: sm Let_def)
  qed
qed

lemma millerRabinRound_prime:
  assumes p: "prime_nat p" and ds: "int p - 1 = d * 2 ^ s" "0 < d" and a: "0 < a" "a < int p"
  shows "millerRabinRound (int p) d s a = returnR True"
proof -
  have p2: "2 \<le> p" by (rule prime_nat_ge2 [OF p])
  define x where "x = a ^ nat d mod int p"
  have r: "0 \<le> x" "x < int p" using p2 by (simp_all add: x_def)
  have e: "nat d * 2 ^ s = p - 1"
  proof -
    have "int (nat d * 2 ^ s) = d * 2 ^ s" using ds(2) by simp
    also have "\<dots> = int (p - 1)" using ds(1) p2 by simp
    finally show ?thesis by (simp only: of_nat_eq_iff)
  qed
  have f: "x ^ (2 ^ s) mod int p = 1"
  proof -
    have "x ^ (2 ^ s) mod int p = (a ^ nat d) ^ (2 ^ s) mod int p"
      by (simp add: x_def power_mod)
    also have "(a ^ nat d) ^ (2 ^ s) = a ^ (p - 1)"
      by (simp add: power_mult [symmetric] e)
    finally show ?thesis using fermat_int [OF p a] by simp
  qed
  have m: "millerRabinRound (int p) d s a =
           returnR (if x = 1 \<or> x = int p - 1 then True else millerRabin_loop (int p) (s - 1) x)"
    using a ds(2) p2 by (simp add: millerRabinRound_returns x_def Let_def)
  show ?thesis
  proof (cases "x = 1 \<or> x = int p - 1")
    case True
    then show ?thesis by (simp add: m)
  next
    case False
    have "s \<noteq> 0"
    proof
      assume "s = 0"
      with f have "x mod int p = 1" by simp
      with r False show False by simp
    qed
    then obtain k where k: "s = Suc k" by (cases s) simp_all
    from False f have "millerRabin_loop (int p) k x = True"
      by (intro millerRabin_loop_prime [OF p r]) (simp_all add: k)
    moreover have "s - 1 = k" by (simp add: k)
    moreover have "millerRabinRound (int p) d s a = returnR (millerRabin_loop (int p) (s - 1) x)"
      using False by (simp add: m)
    ultimately show ?thesis by simp
  qed
qed

lemma deterministic_loop_prime:
  assumes p: "prime_nat p" and ds: "int p - 1 = d * 2 ^ s" "0 < d"
  shows "\<forall>a \<in> set as. 0 < a \<Longrightarrow> deterministic_loop (int p) d s as = returnR True"
proof (induction as)
  case Nil
  show ?case by simp
next
  case (Cons a as)
  show ?case
  proof (cases "a \<ge> int p - 1")
    case True
    then show ?thesis by simp
  next
    case False
    then have "a < int p" by simp
    moreover have "0 < a" using Cons.prems by simp
    ultimately have "millerRabinRound (int p) d s a = returnR True"
      by (intro millerRabinRound_prime [OF p ds])
    then show ?thesis using False Cons by simp
  qed
qed

lemma random_loop_prime:
  assumes p: "prime_nat p" and ds: "int p - 1 = d * 2 ^ s" "0 < d" and n5: "5 \<le> int p"
  shows "random_loop (int p) d s rand nBytes k i = returnR True"
proof (induction "k - i" arbitrary: i)
  case 0
  then show ?case by (subst random_loop.simps) simp
next
  case (Suc m)
  then have ik: "i < k" by simp
  define r where "r = witness_bytes rand (i * nBytes) nBytes 0 0"
  have r0: "0 \<le> r" unfolding r_def by (rule witness_bytes_nonneg) simp
  note w = random_witness_range [OF n5 r0]
  have "millerRabinRound (int p) d s (2 + r smod (int p - 4)) = returnR True"
    using w by (intro millerRabinRound_prime [OF p ds]) simp_all
  moreover have "random_loop (int p) d s rand nBytes k (i + 1) = returnR True"
    using Suc by (intro Suc.hyps(1)) simp
  ultimately show ?case
    using ik by (subst random_loop.simps) (simp add: r_def [symmetric] Let_def)
qed

lemma trialDivision_prime:
  assumes p: "prime_nat p"
  shows "\<forall>q \<in> set ps. 2 \<le> q \<Longrightarrow> trialDivision (int p) ps \<noteq> Some False"
proof (induction ps)
  case Nil
  show ?case by simp
next
  case (Cons q ps)
  have q: "2 \<le> q" using Cons.prems by simp
  have "int p smod q \<noteq> 0" if ne: "int p \<noteq> q"
  proof
    assume "int p smod q = 0"
    then have "q dvd int p" using q by (simp add: smod_dvd)
    then have "int (nat q) dvd int p" using q by simp
    then have "nat q dvd p" by (simp only: int_dvd_int_iff)
    with p have "nat q = 1 \<or> nat q = p" by (simp add: prime_nat_def)
    with q ne show False by auto
  qed
  with Cons show ?case by simp
qed

lemma isPrime_prime:
  assumes p: "prime_nat p" and quota: "bigintByteLength (int p) * k \<le> 65536"
  shows "\<exists>g'. isPrime (int p) k g = returnR (True, g')"
proof -
  have p2: "2 \<le> p" by (rule prime_nat_ge2 [OF p])
  show ?thesis
  proof (cases "p = 2 \<or> p = 3")
    case True
    then show ?thesis by (auto simp: isPrime_def)
  next
    case False
    have odd: "odd p"
    proof
      assume "even p"
      then have "2 dvd p" by simp
      with p have "2 = p" by (auto simp: prime_nat_def)
      with False show False by simp
    qed
    then have "int p mod 2 = 1" by presburger
    then have o: "int p AND 1 \<noteq> 0" by (simp add: and_one_int)
    have n5: "5 \<le> int p" using p2 False odd by (cases "p = 4") auto
    have n: "\<not> int p < 2" "int p \<noteq> 2" "int p \<noteq> 3" using p2 False by simp_all
    have "\<forall>q \<in> set SMALL_PRIMES. 2 \<le> q" using SMALL_PRIMES_range by blast
    from trialDivision_prime [OF p this] have td: "trialDivision (int p) SMALL_PRIMES \<noteq> Some False" .
    show ?thesis
    proof (cases "trialDivision (int p) SMALL_PRIMES")
      case (Some b)
      with td have "b" by auto
      with Some n o show ?thesis by (simp add: isPrime_def)
    next
      case None
      from decompose_terminates [of "int p - 1" 0] n5
      obtain d s where ds: "decompose (int p - 1) 0 = Some (d, s)" "0 < d" "int p - 1 = d * 2 ^ s"
        by auto
      note dl = deterministic_loop_prime [OF p ds(3) ds(2), of DETERMINISTIC_WITNESSES]
      note rl = random_loop_prime [OF p ds(3) ds(2) n5]
      have dw: "\<forall>a \<in> set DETERMINISTIC_WITNESSES. 0 < a" by (simp add: DETERMINISTIC_WITNESSES_def)
      show ?thesis
      proof (cases "int p < 318665857834031151167461")
        case True
        with None n o ds(1) dl [OF dw] show ?thesis by (simp add: isPrime_def)
      next
        case False
        with None n o ds(1) rl quota show ?thesis
          by (simp add: isPrime_def getRandomValues_def Let_def)
      qed
    qed
  qed
qed

section \<open>The wheel skips no prime above 7\<close>

lemma coprime210_mod: "coprime210 (m mod 210) = coprime210 m"
proof -
  have "m mod 210 mod 2 = m mod 2" "m mod 210 mod 3 = m mod 3"
    "m mod 210 mod 5 = m mod 5" "m mod 210 mod 7 = m mod 7"
    by (simp_all add: mod_mod_cancel)
  then show ?thesis by (simp add: coprime210_def)
qed

lemma coprime210_shift:
  assumes "p mod 210 = r mod 210"
  shows "coprime210 (p + j) = coprime210 (r + j)"
proof -
  have "(p + j) mod 210 = (r + j) mod 210"
    using assms by (metis mod_add_left_eq)
  then show ?thesis by (metis coprime210_mod)
qed

lemma prime_coprime210:
  assumes p: "prime_nat p" and "7 < p"
  shows "coprime210 (int p)"
proof -
  have nd: "\<not> d dvd p" if "d = 2 \<or> d = 3 \<or> d = 5 \<or> d = 7" for d
  proof
    assume "d dvd p"
    with p have "d = 1 \<or> d = p" by (simp add: prime_nat_def)
    with that assms(2) show False by auto
  qed
  have "\<not> int d dvd int p" if "d = 2 \<or> d = 3 \<or> d = 5 \<or> d = 7" for d
    using nd [OF that] by (simp only: int_dvd_int_iff not_False_eq_True)
  from this [of 2] this [of 3] this [of 5] this [of 7]
  show ?thesis by (simp add: coprime210_def dvd_eq_mod_eq_0)
qed

lemma wheel_table:
  "list_all (\<lambda>(r, inc, r'). (r + inc) mod 210 = r' \<and> 0 < inc
      \<and> list_all (\<lambda>j. \<not> coprime210 (r + j)) [1..inc - 1])
    (zip wheel_residues (zip wheel_increments (rotate1 wheel_residues)))"
  unfolding wheel_residues_eq wheel_increments_eq by (simp add: coprime210_def upto.simps)

lemma align_table:
  "list_all (\<lambda>m. case alignToWheel_scan 0 m wheel_residues 0 of (d, idx) \<Rightarrow>
      idx < 48 \<and> 0 \<le> d \<and> wheel_residues ! idx = m + d
      \<and> list_all (\<lambda>j. \<not> coprime210 (m + j)) [0..d - 1])
    [0..209]"
  unfolding wheel_residues_eq by (simp add: coprime210_def upto.simps)

lemma wheel_residues_range: "idx < 48 \<Longrightarrow> 0 \<le> wheel_residues ! idx \<and> wheel_residues ! idx < 210"
proof -
  have "\<forall>r \<in> set wheel_residues. 0 \<le> r \<and> r < 210" by (simp add: wheel_residues_eq)
  then show "idx < 48 \<Longrightarrow> 0 \<le> wheel_residues ! idx \<and> wheel_residues ! idx < 210"
    using nth_mem [of idx wheel_residues] by (simp add: wheel_lengths)
qed

lemma wheel_step:
  assumes "idx < 48"
  shows "(wheel_residues ! idx + wheel_increments ! idx) mod 210 = wheel_residues ! ((idx + 1) mod 48)"
    and "0 < wheel_increments ! idx"
    and "0 < j \<Longrightarrow> j < wheel_increments ! idx \<Longrightarrow> \<not> coprime210 (wheel_residues ! idx + j)"
proof -
  let ?zs = "zip wheel_residues (zip wheel_increments (rotate1 wheel_residues))"
  have len: "idx < length ?zs" using assms by (simp add: wheel_lengths)
  have z: "?zs ! idx = (wheel_residues ! idx, wheel_increments ! idx,
                        wheel_residues ! ((idx + 1) mod 48))"
    using assms by (simp add: wheel_lengths nth_rotate1)
  from wheel_table len have
    "(\<lambda>(r, inc, r'). (r + inc) mod 210 = r' \<and> 0 < inc
      \<and> list_all (\<lambda>j. \<not> coprime210 (r + j)) [1..inc - 1]) (?zs ! idx)"
    by (simp only: list_all_length)
  then have f: "(wheel_residues ! idx + wheel_increments ! idx) mod 210 = wheel_residues ! ((idx + 1) mod 48)"
    "0 < wheel_increments ! idx"
    "list_all (\<lambda>j. \<not> coprime210 (wheel_residues ! idx + j)) [1..wheel_increments ! idx - 1]"
    unfolding z by simp_all
  show "(wheel_residues ! idx + wheel_increments ! idx) mod 210 = wheel_residues ! ((idx + 1) mod 48)"
    and "0 < wheel_increments ! idx" by (rule f)+
  show "0 < j \<Longrightarrow> j < wheel_increments ! idx \<Longrightarrow> \<not> coprime210 (wheel_residues ! idx + j)"
    using f(3) by (simp add: list_all_iff)
qed

lemma alignToWheel_scan_shift:
  "alignToWheel_scan p m rs i =
     (p + fst (alignToWheel_scan 0 m rs i), snd (alignToWheel_scan 0 m rs i))"
  by (induction rs arbitrary: i) simp_all

lemma alignToWheel_cover:
  assumes "0 \<le> p" "alignToWheel p = (p', idx)"
  shows "idx < 48" "p \<le> p'" "p' mod 210 = wheel_residues ! idx"
    "p \<le> v \<Longrightarrow> v < p' \<Longrightarrow> \<not> coprime210 v"
proof -
  define m where "m = p mod 210"
  have m: "0 \<le> m" "m \<le> 209" by (simp_all add: m_def)
  have sm: "p smod wheel_mod = m" using assms(1) by (simp add: smod_nonneg wheel_mod_def m_def)
  obtain d i where s: "alignToWheel_scan 0 m wheel_residues 0 = (d, i)"
    by (cases "alignToWheel_scan 0 m wheel_residues 0")
  from assms(2) have e: "p' = p + d" "idx = i"
    unfolding alignToWheel_def sm by (subst (asm) alignToWheel_scan_shift, simp add: s)+
  from m have "m \<in> set [0..209]" by simp
  with align_table have
    "case alignToWheel_scan 0 m wheel_residues 0 of (d, idx) \<Rightarrow>
      idx < 48 \<and> 0 \<le> d \<and> wheel_residues ! idx = m + d
      \<and> list_all (\<lambda>j. \<not> coprime210 (m + j)) [0..d - 1]"
    by (simp only: list_all_iff)
  then have f: "i < 48" "0 \<le> d" "wheel_residues ! i = m + d"
    "list_all (\<lambda>j. \<not> coprime210 (m + j)) [0..d - 1]"
    unfolding s by simp_all
  show "idx < 48" using f(1) e by simp
  show "p \<le> p'" using f(2) e by simp
  have "(p + d) mod 210 = (m + d) mod 210" unfolding m_def by (simp add: mod_add_left_eq)
  also have "\<dots> = wheel_residues ! i" using f(3) wheel_residues_range [OF f(1)] by simp
  finally show "p' mod 210 = wheel_residues ! idx" using e by simp
  show "\<not> coprime210 v" if "p \<le> v" "v < p'"
  proof -
    define j where "j = v - p"
    have j: "0 \<le> j" "j \<le> d - 1" using that e by (simp_all add: j_def)
    then have "\<not> coprime210 (m + j)" using f(4) by (simp add: list_all_iff)
    moreover have "coprime210 (p + j) = coprime210 (m + j)"
      by (rule coprime210_shift) (simp add: m_def)
    ultimately show ?thesis by (simp add: j_def)
  qed
qed

lemma bigintByteLength_mono:
  assumes "0 < a" "a \<le> b"
  shows "bigintByteLength a \<le> bigintByteLength b"
proof -
  have b: "0 < b" using assms by simp
  have "(256::int) ^ (bigintByteLength a - 1) \<le> a" by (rule bigintByteLength_bounds(2) [OF assms(1)])
  also have "a \<le> b" by fact
  also have "b < 256 ^ bigintByteLength b" by (rule bigintByteLength_bounds(3) [OF b])
  finally have "bigintByteLength a - 1 < bigintByteLength b" by simp
  then show ?thesis using bigintByteLength_bounds(1) [OF assms(1)] by simp
qed

lemma nextPrime_loop_reaches:
  assumes q: "prime_nat q" "7 < q" and quota: "bigintByteLength (int q) * k \<le> 65536"
  shows "0 < p \<Longrightarrow> p \<le> int q \<Longrightarrow> idx < 48 \<Longrightarrow> p mod 210 = wheel_residues ! idx \<Longrightarrow>
         \<exists>l g' g0. nextPrime_loop k p idx g = returnR (l, g') \<and> p \<le> l \<and> l \<le> int q
            \<and> isPrime l k g0 = returnR (True, g')"
proof (induction "nat (int q - p)" arbitrary: p idx g rule: less_induct)
  case less
  have "bigintByteLength p \<le> bigintByteLength (int q)"
    using less.prems(1,2) by (rule bigintByteLength_mono)
  then have "bigintByteLength p * k \<le> bigintByteLength (int q) * k" by (rule mult_le_mono1)
  with quota have "bigintByteLength p * k \<le> 65536" by (rule le_trans [rotated])
  from isPrime_returns [OF this] obtain b g' where b: "isPrime p k g = returnR (b, g')" by blast
  show ?case
  proof (cases b)
    case True
    with b have "nextPrime_loop k p idx g = returnR (p, g')"
      by (subst nextPrime_loop.simps) simp
    with b True less.prems(2) show ?thesis by auto
  next
    case False
    define inc where "inc = wheel_increments ! idx"
    note ws = wheel_step [OF less.prems(3), folded inc_def]
    from isPrime_prime [OF q(1) quota, of g] b False have "p \<noteq> int q" by auto
    with less.prems(2) have lt: "p < int q" by simp
    have le: "p + inc \<le> int q"
    proof (rule ccontr)
      assume "\<not> p + inc \<le> int q"
      then have j: "0 < int q - p" "int q - p < inc" using lt by simp_all
      from ws(3) [OF j] have "\<not> coprime210 (wheel_residues ! idx + (int q - p))" .
      moreover have "p mod 210 = wheel_residues ! idx mod 210"
        using less.prems(4) wheel_residues_range [OF less.prems(3)] by simp
      then have "coprime210 (p + (int q - p)) = coprime210 (wheel_residues ! idx + (int q - p))"
        by (rule coprime210_shift)
      ultimately show False using prime_coprime210 [OF q] by simp
    qed
    have md: "(p + inc) mod 210 = wheel_residues ! ((idx + 1) mod 48)"
    proof -
      have "(p + inc) mod 210 = (p mod 210 + inc) mod 210" by (simp add: mod_add_left_eq)
      then show ?thesis using ws(1) by (simp add: less.prems(4))
    qed
    have "\<exists>l g'' g0. nextPrime_loop k (p + inc) ((idx + 1) mod 48) g' = returnR (l, g'')
            \<and> p + inc \<le> l \<and> l \<le> int q \<and> isPrime l k g0 = returnR (True, g'')"
      using ws(2) less.prems(1) le md lt by (intro less.hyps) simp_all
    then obtain l g'' g0 where r:
      "nextPrime_loop k (p + inc) ((idx + 1) mod 48) g' = returnR (l, g'')"
      "p + inc \<le> l" "l \<le> int q" "isPrime l k g0 = returnR (True, g'')" by blast
    have "nextPrime_loop k p idx g = returnR (l, g'')"
      using b False less.prems(3) r(1)
      by (subst nextPrime_loop.simps) (simp add: wheel_lengths inc_def)
    with r ws(2) show ?thesis by (intro exI [of _ l] exI [of _ g''] exI [of _ g0]) simp
  qed
qed

section \<open>The claims\<close>

subsection \<open>C6: the constructor of the reducer on an even modulus\<close>

text \<open>
  Claim C6 says that constructing \<open>MontgomeryReducer(n)\<close> fails with a caller error
  for every even \<open>n\<close>. The constructor has no such check: for the even modulus 10
  it returns a reducer.
\<close>

theorem MontgomeryReducer_even_constructed:
  "MontgomeryReducer_new 10 =
     Inr \<lparr> mont_n = 10, mont_rBits = 4, mont_rMask = 15, mont_nPrime = 0, mont_r = 16 \<rparr>"
  by code_simp

text \<open>
  C6 as the code has it: the constructor returns a reducer for every modulus, and an
  even modulus is kept from the reducer by the callers, whose routing predicates
  \<open>shouldUseMontgomery\<close> and \<open>shouldUseMontgomeryForModpow\<close> are false on it.
\<close>

theorem MontgomeryReducer_no_parity_check:
  "(\<exists>m. MontgomeryReducer_new n = Inr m \<and> mont_n m = n) \<and>
   (even n \<longrightarrow> \<not> shouldUseMontgomery n t \<and> \<not> shouldUseMontgomeryForModpow n e)"
  using MontgomeryReducer_new_total [of n] shouldUseMontgomery_odd [of n t]
    shouldUseMontgomeryForModpow_odd [of n e] by blast

text \<open>The statement at the even modulus 10.\<close>

theorem MontgomeryReducer_no_parity_check_witness:
  "(\<exists>m. MontgomeryReducer_new 10 = Inr m \<and> mont_n m = 10) \<and>
   even (10::int) \<and> \<not> shouldUseMontgomery 10 5000 \<and> \<not> shouldUseMontgomeryForModpow 10 128"
  using MontgomeryReducer_no_parity_check [of 10 5000 128] by simp

subsection \<open>C8: Montgomery reduction\<close>

text \<open>
  Claim C8: for an odd modulus \<open>n > 1\<close> the constructor chooses \<open>r = 2 ^ rBits\<close>, the
  smallest power of two above \<open>n\<close> (\<open>n < r \<le> 2 n\<close>); \<open>n * nPrime\<close> is \<open>-1\<close> modulo
  \<open>r\<close>; and for \<open>0 \<le> x < n * r\<close> the result of \<open>reduce(x)\<close> lies in \<open>[0, n)\<close> and is
  \<open>x\<close> times the inverse \<open>ri\<close> of \<open>r\<close> modulo \<open>n\<close>.
\<close>

theorem montgomery_reduce_correct:
  assumes "odd n" and "1 < n"
  shows "\<exists>m ri. MontgomeryReducer_new n = Inr m \<and> mont_n m = n \<and>
           mont_r m = 2 ^ mont_rBits m \<and> n < mont_r m \<and> mont_r m \<le> 2 * n \<and>
           (n * mont_nPrime m) mod mont_r m = mont_r m - 1 \<and>
           (mont_r m * ri) mod n = 1 \<and>
           (\<forall>x. 0 \<le> x \<and> x < n * mont_r m \<longrightarrow>
                0 \<le> reduce m x \<and> reduce m x < n \<and>
                (reduce m x * mont_r m) mod n = x mod n \<and>
                reduce m x = (x * ri) mod n)"
proof -
  from MontgomeryReducer_new_inv [OF assms]
  obtain m where m: "MontgomeryReducer_new n = Inr m" "mont_inv m" "mont_n m = n" by blast
  from mont_inverse [OF m(2)] obtain ri where ri: "(mont_r m * ri) mod n = 1" by (auto simp: m(3))
  let ?k = "length (toString n 2)"
  have pos: "0 < n" using assms by simp
  have k: "mont_rBits m = ?k" "mont_r m = 2 ^ ?k"
    using MontgomeryReducer_new_eq [OF pos] m(1) by auto
  have kpos: "0 < ?k"
    using pos natToString_length_pos [of 2 "nat n"] by (simp add: toString_def)
  have "(2::int) ^ ?k = 2 * 2 ^ (?k - 1)" using kpos by (cases ?k) simp_all
  also have "\<dots> \<le> 2 * n" using toString2_bounds(1) [OF pos] by simp
  finally have le: "mont_r m \<le> 2 * n" by (simp add: k)
  have r1: "0 < mont_r m" using m(2) by (rule mont_inv_pos)
  have dv: "mont_r m dvd n * mont_nPrime m + 1"
    using m(2) unfolding mont_inv_def m(3) by blast
  have "(n * mont_nPrime m) mod mont_r m = ((n * mont_nPrime m + 1) - 1) mod mont_r m" by simp
  also have "\<dots> = ((n * mont_nPrime m + 1) mod mont_r m - 1) mod mont_r m"
    by (simp only: mod_diff_left_eq)
  also have "\<dots> = (- 1) mod mont_r m" using dv by simp
  also have "\<dots> = mont_r m - 1" using r1 by (simp add: zmod_minus1)
  finally have np: "(n * mont_nPrime m) mod mont_r m = mont_r m - 1" .
  have red: "0 \<le> reduce m x \<and> reduce m x < n \<and> (reduce m x * mont_r m) mod n = x mod n \<and>
             reduce m x = (x * ri) mod n" if x: "0 \<le> x" "x < n * mont_r m" for x
  proof -
    have x': "x < mont_n m * mont_r m" using x by (simp add: m(3))
    note rc = reduce_correct [OF m(2) x(1) x', unfolded m(3)]
    have "reduce m x = reduce m x mod n" using rc by simp
    also have "\<dots> = (reduce m x * ((mont_r m * ri) mod n)) mod n" by (simp add: ri)
    also have "\<dots> = ((reduce m x * mont_r m) * ri) mod n"
      by (simp add: mod_mult_right_eq mult.assoc)
    also have "\<dots> = (((reduce m x * mont_r m) mod n) * ri) mod n"
      by (simp add: mod_mult_left_eq)
    also have "\<dots> = (x * ri) mod n" by (simp add: rc(3) mod_mult_left_eq)
    finally show ?thesis using rc by simp
  qed
  have nr: "n < mont_r m" using m(2) by (simp add: mont_inv_def m(3))
  have rp: "mont_r m = 2 ^ mont_rBits m" using k by simp
  have all: "\<forall>x. 0 \<le> x \<and> x < n * mont_r m \<longrightarrow>
                0 \<le> reduce m x \<and> reduce m x < n \<and>
                (reduce m x * mont_r m) mod n = x mod n \<and>
                reduce m x = (x * ri) mod n"
    using red by blast
  show ?thesis using m(1) m(3) rp nr le np ri all by blast
qed

text \<open>The statement at the modulus 11.\<close>

theorem montgomery_reduce_correct_witness:
  "odd (11::int) \<and> (1::int) < 11 \<and>
   (\<exists>m ri. MontgomeryReducer_new 11 = Inr m \<and> mont_n m = 11 \<and>
           mont_r m = 2 ^ mont_rBits m \<and> 11 < mont_r m \<and> mont_r m \<le> 2 * 11 \<and>
           (11 * mont_nPrime m) mod mont_r m = mont_r m - 1 \<and>
           (mont_r m * ri) mod 11 = 1 \<and>
           (\<forall>x. 0 \<le> x \<and> x < 11 * mont_r m \<longrightarrow>
                0 \<le> reduce m x \<and> reduce m x < 11 \<and>
                (reduce m x * mont_r m) mod 11 = x mod 11 \<and>
                reduce m x = (x * ri) mod 11))"
  using montgomery_reduce_correct [of 11] by simp

subsection \<open>C4: evaluate\<close>

text \<open>
  Claim C4: for \<open>n > 1\<close>, \<open>0 < x < n\<close> coprime to \<open>n\<close> and \<open>t > 0\<close>, \<open>evaluate\<close> returns
  \<open>(x, h, t, n)\<close> with \<open>h = x ^ (2 ^ t) mod n\<close>, which is the \<open>t\<close>-fold nested squaring
  of \<open>x\<close> modulo \<open>n\<close>; the plain loop computes it, and so does the Montgomery loop
  for an odd modulus; for \<open>x \<le> 0\<close>, \<open>x \<ge> n\<close>, \<open>gcd(x, n) \<noteq> 1\<close> or \<open>t \<le> 0\<close> it raises.
\<close>

theorem evaluate_correct:
  "(1 < n \<and> 0 < x \<and> x < n \<and> gcd x n = 1 \<and> 0 < t \<longrightarrow>
      evaluate x n t = Inr \<lparr> vdf_x = x, vdf_h = x ^ (2 ^ nat t) mod n, vdf_t = t, vdf_n = n \<rparr> \<and>
      x ^ (2 ^ nat t) mod n = ((\<lambda>h. (h * h) mod n) ^^ nat t) x \<and>
      evaluate_loop n (nat t) x = x ^ (2 ^ nat t) mod n \<and>
      (odd n \<longrightarrow> (\<exists>m. getMontgomeryReducer n = Inr m \<and>
         fromMontgomery m (evaluate_loop_mont m (nat t) (toMontgomery m x)) = x ^ (2 ^ nat t) mod n))) \<and>
   (x \<le> 0 \<or> x \<ge> n \<or> gcd x n \<noteq> 1 \<or> t \<le> 0 \<longrightarrow> (\<exists>e. evaluate x n t = Inl e))"
proof (intro conjI impI)
  assume a: "1 < n \<and> 0 < x \<and> x < n \<and> gcd x n = 1 \<and> 0 < t"
  then show "evaluate x n t = Inr \<lparr> vdf_x = x, vdf_h = x ^ (2 ^ nat t) mod n, vdf_t = t, vdf_n = n \<rparr>"
    by (intro evaluate_ok) simp_all
  from a show "x ^ (2 ^ nat t) mod n = ((\<lambda>h. (h * h) mod n) ^^ nat t) x"
    by (simp add: nested_squaring_eq)
  from a show "evaluate_loop n (nat t) x = x ^ (2 ^ nat t) mod n"
    by (intro evaluate_loop_eq) simp_all
  assume "odd n"
  with a show "\<exists>m. getMontgomeryReducer n = Inr m \<and>
         fromMontgomery m (evaluate_loop_mont m (nat t) (toMontgomery m x)) = x ^ (2 ^ nat t) mod n"
    by (intro evaluate_mont_path) simp_all
next
  assume "x \<le> 0 \<or> x \<ge> n \<or> gcd x n \<noteq> 1 \<or> t \<le> 0"
  then show "\<exists>e. evaluate x n t = Inl e" by (rule evaluate_raises)
qed

text \<open>The statement at \<open>x = 7\<close>, \<open>n = 15\<close>, \<open>t = 3\<close>, and at three rejected inputs.\<close>

theorem evaluate_correct_witness:
  "evaluate 7 15 3 = Inr \<lparr> vdf_x = 7, vdf_h = 1, vdf_t = 3, vdf_n = 15 \<rparr> \<and>
   evaluate_loop 15 3 7 = 1 \<and>
   (\<exists>m. getMontgomeryReducer 15 = Inr m \<and>
         fromMontgomery m (evaluate_loop_mont m 3 (toMontgomery m 7)) = 1) \<and>
   (\<exists>e. evaluate 0 15 3 = Inl e) \<and> (\<exists>e. evaluate 5 15 3 = Inl e) \<and>
   (\<exists>e. evaluate 7 15 0 = Inl e)"
proof -
  have g: "gcd (7::int) 15 = 1" "gcd (5::int) 15 \<noteq> 1" by code_simp+
  have p: "(7::int) ^ (2 ^ nat 3) mod 15 = 1" by code_simp
  show ?thesis
    using evaluate_correct [where n = 15 and x = 7 and t = 3]
      evaluate_correct [where n = 15 and x = 0 and t = 3]
      evaluate_correct [where n = 15 and x = 5 and t = 3]
      evaluate_correct [where n = 15 and x = 7 and t = 0] g
    by (simp add: p)
qed

subsection \<open>C3: prove\<close>

text \<open>
  Claim C3: for \<open>n > 1\<close>, \<open>0 < x < n\<close>, \<open>t \<ge> 1\<close> and a challenge \<open>l > 2\<close>, \<open>prove\<close>
  returns \<open>x ^ (2 ^ t div l) mod n\<close>; after \<open>i\<close> iterations of the long division loop
  the state is \<open>pi = x ^ (2 ^ i div l) mod n\<close> and \<open>r = 2 ^ i mod l\<close> with \<open>0 \<le> r < l\<close>,
  on the plain path and (read back from Montgomery form) on the Montgomery path.
  The primality of \<open>l\<close> is not needed.
\<close>

theorem prove_correct:
  assumes "1 < vdf_n output" and "0 < vdf_x output" and "vdf_x output < vdf_n output"
    and "1 \<le> vdf_t output" and "2 < l"
  shows "prove output l =
           Inr (vdf_x output ^ nat (2 ^ nat (vdf_t output) div l) mod vdf_n output) \<and>
         (\<forall>i. prove_loop (vdf_n output) (vdf_x output) l i (1, 1) =
                (vdf_x output ^ nat (2 ^ i div l) mod vdf_n output, 2 ^ i mod l) \<and>
              0 \<le> (2 ^ i mod l) \<and> 2 ^ i mod l < l) \<and>
         (odd (vdf_n output) \<longrightarrow>
            (\<exists>m. getMontgomeryReducer (vdf_n output) = Inr m \<and>
               (\<forall>i. \<exists>pi. prove_loop_mont m (toMontgomery m (vdf_x output)) l i (toMontgomery m 1, 1) =
                       (pi, 2 ^ i mod l) \<and>
                     fromMontgomery m pi = vdf_x output ^ nat (2 ^ i div l) mod vdf_n output)))"
proof (intro conjI allI impI)
  show "prove output l =
           Inr (vdf_x output ^ nat (2 ^ nat (vdf_t output) div l) mod vdf_n output)"
    using assms by (intro prove_ok) simp_all
  show "prove_loop (vdf_n output) (vdf_x output) l i (1, 1) =
                (vdf_x output ^ nat (2 ^ i div l) mod vdf_n output, 2 ^ i mod l)" for i
    using assms by (intro prove_loop_start) simp_all
  show "0 \<le> (2 ^ i mod l)" for i using assms(5) by simp
  show "2 ^ i mod l < l" for i using assms(5) by simp
  assume "odd (vdf_n output)"
  from MontgomeryReducer_new_inv [OF this assms(1)]
  obtain m where m: "MontgomeryReducer_new (vdf_n output) = Inr m" "mont_inv m"
    "mont_n m = vdf_n output" by blast
  have "\<exists>pi. prove_loop_mont m (toMontgomery m (vdf_x output)) l i (toMontgomery m 1, 1) =
                       (pi, 2 ^ i mod l) \<and>
                     fromMontgomery m pi = vdf_x output ^ nat (2 ^ i div l) mod vdf_n output" for i
    using prove_loop_mont_start [OF m(2), of "vdf_x output" l i] assms m(2,3)
    by (simp add: fromMontgomery_mrep)
  then show "\<exists>m. getMontgomeryReducer (vdf_n output) = Inr m \<and>
               (\<forall>i. \<exists>pi. prove_loop_mont m (toMontgomery m (vdf_x output)) l i (toMontgomery m 1, 1) =
                       (pi, 2 ^ i mod l) \<and>
                     fromMontgomery m pi = vdf_x output ^ nat (2 ^ i div l) mod vdf_n output)"
    using m(1) by (auto simp: getMontgomeryReducer_def)
qed



text \<open>The statement at \<open>x = 2\<close>, \<open>n = 15\<close>, \<open>t = 5\<close>, \<open>l = 3\<close>.\<close>

theorem prove_correct_witness:
  "prove \<lparr> vdf_x = 2, vdf_h = 2, vdf_t = 5, vdf_n = 15 \<rparr> 3 = Inr 4 \<and>
   prove_loop 15 2 3 5 (1, 1) = (4, 2)"
proof -
  let ?out = "\<lparr> vdf_x = 2, vdf_h = 2, vdf_t = 5, vdf_n = 15 \<rparr>"
  have h: "1 < vdf_n ?out" "0 < vdf_x ?out" "vdf_x ?out < vdf_n ?out" "1 \<le> vdf_t ?out"
    "2 < (3::int)"
    by simp_all
  note c = prove_correct [OF h]
  have p: "(2::int) ^ nat (2 ^ nat 5 div 3) mod 15 = 4" "(2::int) ^ nat (2 ^ 5 div 3) mod 15 = 4"
    "(2::int) ^ 5 mod 3 = 2"
    by code_simp+
  from c have "prove ?out 3 = Inr (vdf_x ?out ^ nat (2 ^ nat (vdf_t ?out) div 3) mod vdf_n ?out)"
    by (rule conjunct1)
  then have a: "prove ?out 3 = Inr 4" by (simp only: VDFOutput.simps p)
  from c have "prove_loop (vdf_n ?out) (vdf_x ?out) 3 5 (1, 1) =
                (vdf_x ?out ^ nat (2 ^ 5 div 3) mod vdf_n ?out, 2 ^ 5 mod 3)"
    by blast
  then have b: "prove_loop 15 2 3 5 (1, 1) = (4, 2)" by (simp only: VDFOutput.simps p)
  from a b show ?thesis by (rule conjI)
qed

subsection \<open>C7: modpow\<close>

text \<open>
  Claim C7: for \<open>x, y \<ge> 0\<close> and \<open>p \<ge> 1\<close>, \<open>modpow(x, y, p)\<close> returns \<open>x ^ y mod p\<close>:
  0 for \<open>p = 1\<close>, \<open>1 mod p\<close> for \<open>y = 0\<close>, \<open>x mod p\<close> for \<open>y = 1\<close>, \<open>x * x mod p\<close> for
  \<open>y = 2\<close>; and each internal path yields that value on the reduced base: the classic
  loop, the sliding window with any window size from 1 on plain arithmetic, and the
  sliding window in Montgomery form for an odd modulus.
\<close>

theorem modpow_correct:
  assumes "0 \<le> x" and "0 \<le> y" and "1 \<le> p"
  shows "modpow x y p = returnR (x ^ nat y mod p) \<and>
         (p = 1 \<longrightarrow> modpow x y p = returnR 0) \<and>
         modpow x 0 p = returnR (1 mod p) \<and>
         modpow x 1 p = returnR (x mod p) \<and>
         modpow x 2 p = returnR ((x * x) mod p) \<and>
         (1 < p \<longrightarrow>
            modpowClassic (x mod p) y p = x ^ nat y mod p \<and>
            (1 \<le> window \<longrightarrow>
               modpowWindowedCore (x mod p) (toString y 2) window
                 (\<lambda>a. (a * a) smod p) (\<lambda>a b. (a * b) smod p) 1 = returnR (x ^ nat y mod p) \<and>
               (odd p \<longrightarrow>
                  (\<exists>mont. getMontgomeryReducerCached p = Inr mont \<and>
                     bindR (modpowWindowedCore (toMontgomery mont (x mod p)) (toString y 2) window
                              (\<lambda>a. square mont a) (\<lambda>a b. multiply mont a b) (toMontgomery mont 1))
                       (\<lambda>resultMont. returnR (fromMontgomery mont resultMont)) =
                     returnR (x ^ nat y mod p)))))"
proof (intro conjI impI)
  show "modpow x y p = returnR (x ^ nat y mod p)" using assms by (rule modpow_eq)
  show "modpow x y p = returnR 0" if "p = 1" using that by (simp add: modpow_def)
  show "modpow x 0 p = returnR (1 mod p)" using modpow_eq [OF assms(1) _ assms(3), of 0] by simp
  show "modpow x 1 p = returnR (x mod p)" using modpow_eq [OF assms(1) _ assms(3), of 1] by simp
  show "modpow x 2 p = returnR ((x * x) mod p)"
    using modpow_eq [OF assms(1) _ assms(3), of 2] by (simp add: power2_eq_square)
next
  assume p: "1 < p"
  have b: "0 \<le> x mod p" "x mod p < p" using p by simp_all
  have pw: "(x mod p) ^ nat y mod p = x ^ nat y mod p" by (simp add: power_mod)
  show "modpowClassic (x mod p) y p = x ^ nat y mod p"
    using modpowClassic_eq [OF p assms(2) b(1)] by (simp only: pw)
  assume w: "1 \<le> window"
  show "modpowWindowedCore (x mod p) (toString y 2) window
          (\<lambda>a. (a * a) smod p) (\<lambda>a b. (a * b) smod p) 1 = returnR (x ^ nat y mod p)"
    using modpow_plain_window [OF p assms(2) b w] by (simp only: pw)
  assume "odd p"
  from MontgomeryReducer_new_inv [OF this p]
  obtain m where m: "MontgomeryReducer_new p = Inr m" "mont_inv m" "mont_n m = p" by blast
  from modpow_mont_window [OF m(2) assms(2) b(1) w]
  have "bindR (modpowWindowedCore (toMontgomery m (x mod p)) (toString y 2) window
                 (\<lambda>a. square m a) (\<lambda>a b. multiply m a b) (toMontgomery m 1))
          (\<lambda>resultMont. returnR (fromMontgomery m resultMont)) = returnR (x ^ nat y mod p)"
    by (simp only: m(3) pw)
  with m(1) show "\<exists>mont. getMontgomeryReducerCached p = Inr mont \<and>
                     bindR (modpowWindowedCore (toMontgomery mont (x mod p)) (toString y 2) window
                              (\<lambda>a. square mont a) (\<lambda>a b. multiply mont a b) (toMontgomery mont 1))
                       (\<lambda>resultMont. returnR (fromMontgomery mont resultMont)) =
                     returnR (x ^ nat y mod p)"
    unfolding getMontgomeryReducerCached_def by blast
qed

text \<open>The statement at \<open>x = 3\<close>, \<open>y = 5\<close>, \<open>p = 7\<close>, window size 3.\<close>

theorem modpow_correct_witness:
  "modpow 3 5 7 = returnR 5 \<and> modpow 3 0 7 = returnR 1 \<and> modpow 3 1 7 = returnR 3 \<and>
   modpow 3 2 7 = returnR 2 \<and> modpowClassic 3 5 7 = 5 \<and>
   modpowWindowedCore 3 (toString 5 2) 3 (\<lambda>a. (a * a) smod 7) (\<lambda>a b. (a * b) smod 7) 1 = returnR 5"
proof -
  have h: "(0::int) \<le> 3" "(0::int) \<le> 5" "(1::int) \<le> 7" by simp_all
  have p: "(3::int) ^ nat 5 mod 7 = 5" "(3::int) mod 7 = 3" "(3 * 3 :: int) mod 7 = 2"
    "(1::int) mod 7 = 1"
    by code_simp+
  note c = modpow_correct [OF h, of 3, unfolded p]
  from c show ?thesis by simp
qed

subsection \<open>C10: isPrime with zero rounds\<close>

text \<open>
  Claim C10: an odd \<open>n\<close> at or above 318665857834031151167461 that no prime up to 1000
  divides (so it equals no small prime either) is accepted by \<open>isPrime(n, {rounds: 0})\<close>,
  composite or not: the loop over the random witnesses runs zero times. No random byte
  is consumed.
\<close>

theorem isPrime_zero_rounds_accepts:
  assumes "odd n" and "318665857834031151167461 \<le> n"
    and "\<forall>p. prime_nat p \<and> p \<le> 1000 \<longrightarrow> \<not> int p dvd n"
  shows "isPrime n 0 g = returnR (True, g)"
  using assms by (rule isPrime_no_rounds)

text \<open>The statement at the composite \<open>1009 ^ 8\<close>, whose only prime factor is 1009.\<close>

theorem isPrime_zero_rounds_accepts_witness:
  "(1074309286591662654798721::int) = 1009 * 1009 ^ 7 \<and>
   isPrime 1074309286591662654798721 0 (\<lambda>i. 0) = returnR (True, (\<lambda>i. 0))"
proof -
  let ?n = "1074309286591662654798721::int"
  have n: "?n = 1009 * 1009 ^ 7" by simp
  have a: "odd ?n" by simp
  have b: "318665857834031151167461 \<le> ?n" by simp
  have c: "\<forall>p. prime_nat p \<and> p \<le> 1000 \<longrightarrow> \<not> int p dvd ?n"
  proof (intro allI impI notI)
    fix p assume p: "prime_nat p \<and> p \<le> 1000" and d: "int p dvd ?n"
    have e: "?n = int (1009 ^ 8)" by simp
    from d have "int p dvd int (1009 ^ 8)" by (simp only: e)
    then have p8: "p dvd 1009 ^ 8" by (simp only: int_dvd_int_iff)
    from p have pp: "prime_nat p" by (rule conjunct1)
    from pp p8 have "p dvd 1009" by (rule prime_nat_dvd_power)
    with prime_nat_1009 [unfolded prime_nat_def] have "p = 1 \<or> p = 1009" by blast
    moreover from pp have "1 < p" unfolding prime_nat_def by (rule conjunct1)
    moreover from p have "p \<le> 1000" by (rule conjunct2)
    ultimately show False by linarith
  qed
  have "isPrime ?n 0 (\<lambda>i. 0) = returnR (True, (\<lambda>i. 0))"
    by (rule isPrime_zero_rounds_accepts [OF a b c])
  with n show ?thesis by (rule conjI)
qed

subsection \<open>C2: verify\<close>

text \<open>
  Claim C2 says that \<open>verify\<close> returns true exactly when all its checks pass, and that on
  a failed check it returns false and never raises. The code breaks the last part on a
  proof whose challenge is very long: \<open>l = 1009 ^ 1650\<close> is odd, has 1009 as its only
  prime factor and takes more than 2048 bytes, so \<open>isPrime(l)\<close> passes trial division
  and asks the random source for more than 65536 bytes, and \<open>verify\<close> raises a
  \<open>QuotaExceededError\<close>, whatever the random source would deliver. (For a challenge of
  at most 2048 bytes the claim holds: lemma \<open>verify_eq\<close>.)
\<close>

theorem verify_raises_on_oversized_challenge:
  "verify \<lparr> vdf_x = 2, vdf_h = 1, vdf_t = 5, vdf_n = 15, vdf_pi = 4, vdf_l = 1009 ^ 1650,
            vdf_nonce = replicate 32 0 \<rparr> g = raiseR QuotaExceededError"
proof -
  have e: "(1009::int) ^ 1650 = 1009 ^ (15 * 110)"
    by (rule arg_cong [of _ _ "\<lambda>k. 1009 ^ k"]) simp
  have h1: "8 * (2048::nat) \<le> 149 * 110" and h2: "(79::nat) \<le> 149 * 110" by simp_all
  note big = pow1009_large [OF h1 h2]
  have q: "65536 < bigintByteLength (1009 ^ (15 * 110)) * 32"
    using big(1) by (rule quota_exceeded) simp
  have gc: "gcd (2::int) 15 = 1" by code_simp
  have r: "(0::int) < 4" "(4::int) < 15" "(0::int) < 2" "(2::int) < 15" by simp_all
  show ?thesis
    by (subst e) (rule verify_quota [OF r gc pow1009_odd big(2) pow1009_no_small_factor q])
qed

subsection \<open>C5: the transcript of deriveChallenge\<close>

text \<open>
  Claim C5: for a VDF output \<open>(x, h, t, n)\<close> with \<open>n > 0\<close>, with \<open>x\<close> and \<open>h\<close>
  non-negative and below \<open>256 ^ nLen\<close>, and with \<open>0 \<le> t < 2 ^ 64\<close>, where \<open>nLen\<close> is
  \<open>bigintByteLength n\<close>: \<open>nLen\<close> is the byte length of \<open>n\<close>
  (\<open>256 ^ (nLen - 1) \<le> n < 256 ^ nLen\<close>); \<open>deriveChallenge(output, nonce)\<close> raises a
  \<open>RangeError\<close> exactly when the nonce is not 32 bytes long; and for a 32-byte nonce its
  outcome is that of \<open>nextPrime\<close> on the digest, read as a big-endian integer, of the
  payload made of the 13 bytes of \<open>wesolowski-v1\<close>, then \<open>x\<close>, \<open>h\<close> in \<open>nLen\<close>
  big-endian bytes each, \<open>t\<close> in 8 big-endian bytes, \<open>n\<close> in \<open>nLen\<close> big-endian bytes,
  and the nonce.
\<close>

theorem deriveChallenge_transcript:
  assumes n: "0 < vdf_n out"
    and x: "0 \<le> vdf_x out" "vdf_x out < 256 ^ bigintByteLength (vdf_n out)"
    and h: "0 \<le> vdf_h out" "vdf_h out < 256 ^ bigintByteLength (vdf_n out)"
    and t: "0 \<le> vdf_t out" "vdf_t out < 2 ^ 64"
  shows "256 ^ (bigintByteLength (vdf_n out) - 1) \<le> vdf_n out
       \<and> vdf_n out < 256 ^ bigintByteLength (vdf_n out)
       \<and> (deriveChallenge sha512 out nonce g = raiseR RangeError \<longleftrightarrow> length nonce \<noteq> 32)
       \<and> (length nonce = 32 \<longrightarrow>
            deriveChallenge sha512 out nonce g =
            nextPrime (be_int (sha512
              ([119, 101, 115, 111, 108, 111, 119, 115, 107, 105, 45, 118, 49]
               @ be_bytes (bigintByteLength (vdf_n out)) (vdf_x out)
               @ be_bytes (bigintByteLength (vdf_n out)) (vdf_h out)
               @ be_bytes 8 (vdf_t out)
               @ be_bytes (bigintByteLength (vdf_n out)) (vdf_n out)
               @ nonce))) 32 g)"
proof -
  note b = bigintByteLength_bounds [OF n]
  note p = challenge_payload_be [OF n x h t, of nonce]
  have eq: "length nonce = 32 \<Longrightarrow>
            deriveChallenge sha512 out nonce g =
            nextPrime (be_int (sha512
              ([119, 101, 115, 111, 108, 111, 119, 115, 107, 105, 45, 118, 49]
               @ be_bytes (bigintByteLength (vdf_n out)) (vdf_x out)
               @ be_bytes (bigintByteLength (vdf_n out)) (vdf_h out)
               @ be_bytes 8 (vdf_t out)
               @ be_bytes (bigintByteLength (vdf_n out)) (vdf_n out)
               @ nonce))) 32 g"
    unfolding deriveChallenge_def p by (simp add: bytesToBigint_be)
  have "deriveChallenge sha512 out nonce g \<noteq> raiseR RangeError" if "length nonce = 32"
  proof
    assume "deriveChallenge sha512 out nonce g = raiseR RangeError"
    then have "nextPrime (be_int (sha512
              ([119, 101, 115, 111, 108, 111, 119, 115, 107, 105, 45, 118, 49]
               @ be_bytes (bigintByteLength (vdf_n out)) (vdf_x out)
               @ be_bytes (bigintByteLength (vdf_n out)) (vdf_h out)
               @ be_bytes 8 (vdf_t out)
               @ be_bytes (bigintByteLength (vdf_n out)) (vdf_n out)
               @ nonce))) 32 g = raiseR RangeError"
      unfolding eq [OF that] .
    then have "RangeError = QuotaExceededError" by (rule nextPrime_raises)
    then show False by simp
  qed
  moreover have "deriveChallenge sha512 out nonce g = raiseR RangeError" if "length nonce \<noteq> 32"
    using that by (simp add: deriveChallenge_def)
  ultimately have "deriveChallenge sha512 out nonce g = raiseR RangeError \<longleftrightarrow> length nonce \<noteq> 32"
    by blast
  with b eq show ?thesis by blast
qed

text \<open>The statement at \<open>(x, h, t, n) = (2, 4, 1, 15)\<close> with a zero nonce and a hash
  that returns the empty digest.\<close>

theorem deriveChallenge_transcript_witness:
  "deriveChallenge (\<lambda>payload. []) \<lparr> vdf_x = 2, vdf_h = 4, vdf_t = 1, vdf_n = 15 \<rparr>
     (replicate 32 0) (\<lambda>i. 0) \<noteq> raiseR RangeError
   \<and> deriveChallenge (\<lambda>payload. []) \<lparr> vdf_x = 2, vdf_h = 4, vdf_t = 1, vdf_n = 15 \<rparr>
     (replicate 32 0) (\<lambda>i. 0) = nextPrime (be_int []) 32 (\<lambda>i. 0)"
proof -
  have l: "bigintByteLength 15 = 1" by code_simp
  have hyp: "0 < vdf_n \<lparr> vdf_x = 2, vdf_h = 4, vdf_t = 1, vdf_n = 15 \<rparr>"
    "0 \<le> vdf_x \<lparr> vdf_x = 2, vdf_h = 4, vdf_t = 1, vdf_n = 15 \<rparr>"
    "vdf_x \<lparr> vdf_x = 2, vdf_h = 4, vdf_t = 1, vdf_n = 15 \<rparr>
       < 256 ^ bigintByteLength (vdf_n \<lparr> vdf_x = 2, vdf_h = 4, vdf_t = 1, vdf_n = 15 \<rparr>)"
    "0 \<le> vdf_h \<lparr> vdf_x = 2, vdf_h = 4, vdf_t = 1, vdf_n = 15 \<rparr>"
    "vdf_h \<lparr> vdf_x = 2, vdf_h = 4, vdf_t = 1, vdf_n = 15 \<rparr>
       < 256 ^ bigintByteLength (vdf_n \<lparr> vdf_x = 2, vdf_h = 4, vdf_t = 1, vdf_n = 15 \<rparr>)"
    "0 \<le> vdf_t \<lparr> vdf_x = 2, vdf_h = 4, vdf_t = 1, vdf_n = 15 \<rparr>"
    "vdf_t \<lparr> vdf_x = 2, vdf_h = 4, vdf_t = 1, vdf_n = 15 \<rparr> < 2 ^ 64"
    by (simp_all add: l)
  have len: "length (replicate 32 (0::byte)) = 32" by simp
  from deriveChallenge_transcript [OF hyp, of "\<lambda>payload. []" "replicate 32 0" "\<lambda>i. 0"] len
  show ?thesis by blast
qed


end
